theory Spec2Isabelle
  imports Complex_Main "HOL-Library.Sublist"
begin

section \<open>Errors\<close>

text \<open>
  The exceptions that the two modules raise, or let escape from the libraries they call.
  \<open>HTTPException status detail\<close> is FastAPI's exception (\<open>main.py\<close>); \<open>ValueError\<close>
  carries the message of the \<open>raise\<close> in \<open>image_processor.py\<close> (the edit endpoint turns
  it into status 400); \<open>TypeError\<close>, \<open>ZeroDivisionError\<close>, \<open>OverflowError\<close>,
  \<open>MemoryError\<close> and the \<open>OSError\<close> family are raised by Python itself or by Pillow on
  an ill-typed operand, a zero divisor, an integer beyond the range of a C \<open>int\<close>, an
  image too large to allocate and a failing file access, and \<open>UnidentifiedImageError\<close>
  by the decoder (the edit endpoint turns them into status 500). \<open>Path.resolve()\<close>
  raises \<open>ValueError\<close> on a path with an embedded NUL byte and \<open>RuntimeError\<close> on a
  loop of symbolic links; no handler of \<open>main.py\<close> is written for them.
\<close>

datatype error =
    HTTPException nat string
  | ValueError string
  | TypeError
  | ZeroDivisionError
  | FileNotFoundError
  | IsADirectoryError
  | UnidentifiedImageError
  | OverflowError
  | MemoryError
  | RuntimeError

section \<open>Paths (pathlib, POSIX flavour)\<close>

text \<open>
  An absolute path is the list of its components below the root \<open>/\<close>; the root itself is
  the empty list. A client-supplied path is a string and is parsed the way \<open>pathlib\<close>
  parses it: split at every slash, empty components and \<open>.\<close> dropped, \<open>..\<close> kept.
\<close>

type_synonym path = "string list"

fun split_slash :: "string \<Rightarrow> string list" where
  "split_slash [] = [[]]"
| "split_slash (c # cs) =
     (if c = CHR ''/'' then [] # split_slash cs
      else (case split_slash cs of
              [] \<Rightarrow> [[c]]
            | w # ws \<Rightarrow> (c # w) # ws))"

definition parts :: "string \<Rightarrow> string list" where
  "parts s = filter (\<lambda>c. c \<noteq> [] \<and> c \<noteq> ''.'') (split_slash s)"

definition is_absolute :: "string \<Rightarrow> bool" where
  "is_absolute s = (case s of [] \<Rightarrow> False | c # _ \<Rightarrow> c = CHR ''/'')"

text \<open>The root of a parsed string: exactly two leading slashes are kept as \<open>//\<close>.\<close>

definition posix_root :: "string \<Rightarrow> string" where
  "posix_root s =
     (let n = length (takeWhile (\<lambda>c. c = CHR ''/'') s)
      in if n = 2 then ''//'' else if 1 \<le> n then ''/'' else [])"

fun join_slash :: "string list \<Rightarrow> string" where
  "join_slash [] = []"
| "join_slash [p] = p"
| "join_slash (p # q # ps) = p @ CHR ''/'' # join_slash (q # ps)"

text \<open>\<open>Path(s).as_posix()\<close>: the root, then the components joined; \<open>.\<close> for the empty path.\<close>

definition as_posix :: "string \<Rightarrow> string" where
  "as_posix s =
     (if posix_root s = [] \<and> parts s = [] then ''.''
      else posix_root s @ join_slash (parts s))"

text \<open>\<open>str.lstrip("/")\<close> removes every leading slash.\<close>

definition lstrip_slash :: "string \<Rightarrow> string" where
  "lstrip_slash s = dropWhile (\<lambda>c. c = CHR ''/'') s"

text \<open>
  \<open>base / s\<close>: an absolute right operand replaces the base, a relative one is appended
  component by component. Nothing is collapsed: \<open>..\<close> stays in the result.
\<close>

definition joinpath :: "path \<Rightarrow> string \<Rightarrow> path" where
  "joinpath base s = (if is_absolute s then parts s else base @ parts s)"

text \<open>
  \<open>p.relative_to(other)\<close> compares components only: it raises \<open>ValueError\<close> unless
  \<open>other\<close> is a prefix of \<open>p\<close>.
\<close>

definition relative_to :: "path \<Rightarrow> path \<Rightarrow> error + path" where
  "relative_to p other =
     (if prefix other p then Inr (drop (length other) p)
      else Inl (ValueError ''is not in the subpath of''))"

section \<open>Path sandbox (\<open>main.py\<close>)\<close>

text \<open>
  \<open>Path.resolve()\<close> asks the operating system for the canonical form of a path (symbolic
  links followed, \<open>.\<close> and \<open>..\<close> collapsed), and it can raise. It is the parameter
  \<open>resolve\<close> of the two functions below; \<open>BROWSE_ROOT\<close>, read from the environment at
  start-up, is the parameter \<open>browse_root\<close>.

  Both functions call \<open>resolve\<close> on the requested path before their \<open>try\<close>, so whatever
  it raises there escapes; the \<open>try\<close> encloses \<open>relative_to\<close> and the \<open>resolve\<close> of
  the root, and its handler \<open>except ValueError\<close> replaces a \<open>ValueError\<close> by the
  \<open>HTTPException\<close> and lets every other exception pass.
\<close>

fun except_ValueError :: "error \<Rightarrow> error \<Rightarrow> error" where
  "except_ValueError raised (ValueError _) = raised"
| "except_ValueError raised e = e"

definition get_safe_browse_path ::
  "(path \<Rightarrow> error + path) \<Rightarrow> path \<Rightarrow> string \<Rightarrow> error + path" where
  "get_safe_browse_path resolve browse_root relative_path =
     (let clean_path = lstrip_slash (as_posix relative_path);
          denied = HTTPException 403 ''Access denied: path outside browse root''
      in case (if clean_path \<noteq> [] then resolve (joinpath browse_root clean_path)
               else resolve browse_root) of
           Inl e \<Rightarrow> Inl e
         | Inr full_path \<Rightarrow>
             (case resolve browse_root of
                Inl e \<Rightarrow> Inl (except_ValueError denied e)
              | Inr broot \<Rightarrow>
                  (case relative_to full_path broot of
                     Inl e \<Rightarrow> Inl (except_ValueError denied e)
                   | Inr _ \<Rightarrow> Inr full_path)))"

definition get_safe_gallery_path ::
  "(path \<Rightarrow> error + path) \<Rightarrow> path \<Rightarrow> string \<Rightarrow> string \<Rightarrow> error + (path \<times> path)" where
  "get_safe_gallery_path resolve browse_root relative_path gallery_root =
     (if gallery_root = [] then
        Inl (HTTPException 400 ''No gallery selected. Please select a folder first.'')
      else
        case get_safe_browse_path resolve browse_root gallery_root of
          Inl e \<Rightarrow> Inl e
        | Inr gallery_base \<Rightarrow>
            (let clean_path = lstrip_slash (as_posix relative_path);
                 denied = HTTPException 403 ''Access denied: path outside gallery root''
             in case (if clean_path \<noteq> [] then resolve (joinpath gallery_base clean_path)
                      else resolve gallery_base) of
                  Inl e \<Rightarrow> Inl e
                | Inr full_path \<Rightarrow>
                    (case resolve gallery_base of
                       Inl e \<Rightarrow> Inl (except_ValueError denied e)
                     | Inr broot \<Rightarrow>
                         (case relative_to full_path broot of
                            Inl e \<Rightarrow> Inl (except_ValueError denied e)
                          | Inr _ \<Rightarrow> Inr (full_path, gallery_base)))))"

text \<open>The outcomes the specification names, read off the status of the exception.\<close>

fun is_PathOutsideRoot :: "error \<Rightarrow> bool" where
  "is_PathOutsideRoot (HTTPException status _) = (status = 403)"
| "is_PathOutsideRoot _ = False"

fun is_GalleryNotSelected :: "error \<Rightarrow> bool" where
  "is_GalleryNotSelected (HTTPException status detail) =
     (status = 400 \<and> detail = ''No gallery selected. Please select a folder first.'')"
| "is_GalleryNotSelected _ = False"

subsection \<open>A concrete resolver\<close>

text \<open>
  A file system seen by \<open>resolve\<close>: a table of symbolic links, from the canonical path of
  the link to the absolute path it points to. Every other name is an ordinary entry (or
  does not exist, which the non-strict \<open>resolve\<close> treats alike). The walk keeps the
  canonical path built so far and consumes the remaining components; \<open>..\<close> drops the last
  component (and stays at the root), a link restarts the walk at its target. A component
  with a NUL byte cannot be looked up: \<open>ValueError\<close>. The fuel bounds the number of links
  followed; when it runs out the links are taken to form a loop: \<open>RuntimeError\<close>.
\<close>

fun realpath :: "nat \<Rightarrow> (path \<rightharpoonup> path) \<Rightarrow> path \<Rightarrow> string list \<Rightarrow> error + path" where
  "realpath fuel links cur [] = Inr cur"
| "realpath fuel links cur (c # cs) =
     (if c = ''..'' then realpath fuel links (butlast cur) cs
      else if c = [] \<or> c = ''.'' then realpath fuel links cur cs
      else if CHR 0x00 \<in> set c then Inl (ValueError ''embedded null byte'')
      else (case links (cur @ [c]) of
              None \<Rightarrow> realpath fuel links (cur @ [c]) cs
            | Some target \<Rightarrow>
                (case fuel of
                   0 \<Rightarrow> Inl RuntimeError
                 | Suc fuel' \<Rightarrow> realpath fuel' links [] (target @ cs))))"

definition os_resolve :: "(path \<rightharpoonup> path) \<Rightarrow> path \<Rightarrow> error + path" where
  "os_resolve links p = realpath 40 links [] p"

section \<open>Python values and operation records\<close>

text \<open>
  An edit operation arrives as a dictionary decoded from JSON. The values modelled are
  integers, strings and \<open>None\<close> (JSON \<open>null\<close>); \<open>op.get(k, default)\<close> is \<open>dict_get\<close>.
  Arithmetic and comparison with an integer raise \<open>TypeError\<close> on a string or \<open>None\<close>
  (\<open>as_int\<close>); \<open>if v\<close> tests truthiness.
\<close>

datatype pyval = PInt int | PStr string | PNone

type_synonym pydict = "string \<rightharpoonup> pyval"

definition dict_get :: "pydict \<Rightarrow> string \<Rightarrow> pyval \<Rightarrow> pyval" where
  "dict_get d k dflt = (case d k of None \<Rightarrow> dflt | Some v \<Rightarrow> v)"

fun truthy :: "pyval \<Rightarrow> bool" where
  "truthy (PInt n) = (n \<noteq> 0)"
| "truthy (PStr s) = (s \<noteq> [])"
| "truthy PNone = False"

fun as_int :: "pyval \<Rightarrow> error + int" where
  "as_int (PInt n) = Inr n"
| "as_int _ = Inl TypeError"

text \<open>\<open>str(n)\<close> for a natural number, and the text an f-string inserts for a value.\<close>

definition digit_char :: "nat \<Rightarrow> char" where
  "digit_char d = ''0123456789'' ! d"

fun str_nat :: "nat \<Rightarrow> string" where
  "str_nat n = (if n < 10 then [digit_char n] else str_nat (n div 10) @ [digit_char (n mod 10)])"

declare str_nat.simps [simp del]

fun py_str :: "pyval \<Rightarrow> string" where
  "py_str (PInt n) = (if n < 0 then CHR ''-'' # str_nat (nat (- n)) else str_nat (nat n))"
| "py_str (PStr s) = s"
| "py_str PNone = ''None''"

section \<open>Floating point\<close>

text \<open>
  Python's \<open>float\<close> is the IEEE 754 binary64 format: 53 significant bits, every
  operation rounded to the nearest value, ties to even. The model has the significand and
  the rounding; it has no bound on the exponent, so it is the arithmetic of Python as long
  as no result leaves the range of binary64, which no quotient and no product of integers
  below \<open>2 ^ 31\<close> in magnitude does.
\<close>

text \<open>The number of binary digits of a natural number.\<close>

fun bit_length :: "nat \<Rightarrow> nat" where
  "bit_length n = (if n = 0 then 0 else Suc (bit_length (n div 2)))"

declare bit_length.simps [simp del]

text \<open>
  For positive \<open>p\<close> and \<open>q\<close>, the exponent \<open>e\<close> with \<open>2 ^ e \<le> p / q < 2 ^ (e + 1)\<close>: it is
  the difference of the bit lengths, or one less.
\<close>

definition binary_exponent :: "int \<Rightarrow> int \<Rightarrow> int" where
  "binary_exponent p q =
     (let k = int (bit_length (nat p)) - int (bit_length (nat q))
      in if (if 0 \<le> k then q * 2 ^ nat k \<le> p else q \<le> p * 2 ^ nat (- k)) then k else k - 1)"

text \<open>The integer nearest to \<open>a / b\<close> (\<open>b\<close> positive), a tie going to the even one.\<close>

definition round_half_even :: "int \<Rightarrow> int \<Rightarrow> int" where
  "round_half_even a b =
     (let f = a div b; r = a mod b
      in if 2 * r < b then f else if b < 2 * r then f + 1 else if even f then f else f + 1)"

text \<open>
  A double is a pair of a mantissa and an exponent and stands for \<open>mantissa * 2 ^ exponent\<close>
  (\<open>double_value\<close>). \<open>round53 p q\<close> is the double nearest to \<open>p / q\<close> for positive
  \<open>p\<close> and \<open>q\<close>: the quotient is scaled to 53 significant bits and rounded.
\<close>

type_synonym double = "int \<times> int"

definition round53 :: "int \<Rightarrow> int \<Rightarrow> double" where
  "round53 p q =
     (let e = binary_exponent p q; s = 52 - e
      in (if 0 \<le> s then round_half_even (p * 2 ^ nat s) q
          else round_half_even p (q * 2 ^ nat (- s)),
          - s))"

definition double_value :: "double \<Rightarrow> real" where
  "double_value d = of_int (fst d) * 2 powi (snd d)"

text \<open>
  \<open>a / b\<close> on Python integers (the correctly rounded quotient; \<open>b\<close> is not zero),
  \<open>a * d\<close> for an integer and a float (the correctly rounded product), \<open>int(d)\<close>
  (truncation towards zero), and \<open>int(a * (b / c))\<close>, the expression of the resize
  branch.
\<close>

definition py_truediv :: "int \<Rightarrow> int \<Rightarrow> double" where
  "py_truediv a b =
     (if a = 0 then (0, 0)
      else (sgn a * sgn b * fst (round53 \<bar>a\<bar> \<bar>b\<bar>), snd (round53 \<bar>a\<bar> \<bar>b\<bar>)))"

definition py_mul_int :: "int \<Rightarrow> double \<Rightarrow> double" where
  "py_mul_int a d =
     (let n = a * fst d
      in if n = 0 then (0, 0)
         else (let r = (if 0 \<le> snd d then round53 (\<bar>n\<bar> * 2 ^ nat (snd d)) 1
                        else round53 \<bar>n\<bar> (2 ^ nat (- snd d)))
               in (sgn n * fst r, snd r)))"

definition py_int :: "double \<Rightarrow> int" where
  "py_int d =
     (if 0 \<le> snd d then fst d * 2 ^ nat (snd d)
      else sgn (fst d) * (\<bar>fst d\<bar> div 2 ^ nat (- snd d)))"

definition float_scale :: "int \<Rightarrow> int \<Rightarrow> int \<Rightarrow> int" where
  "float_scale a b c = py_int (py_mul_int a (py_truediv b c))"

section \<open>Images and the imaging library\<close>

text \<open>
  An in-memory RGB image: its size and the pixel at column \<open>x\<close>, row \<open>y\<close> (the origin is
  the top-left corner; the function is meaningful for \<open>0 \<le> x < width\<close>,
  \<open>0 \<le> y < height\<close>).
\<close>

type_synonym pixel = "nat \<times> nat \<times> nat"

record image =
  width :: int
  height :: int
  pixel_at :: "int \<Rightarrow> int \<Rightarrow> pixel"

type_synonym bytes = "char list"

text \<open>
  What the pipeline takes from Pillow and rawpy without looking inside: decoding (for an
  ordinary file \<open>Image.open\<close>, \<open>exif_transpose\<close> and the flattening to RGB on a white
  background; for a RAW file \<open>rawpy\<close>), JPEG encoding at quality 90, the two resampling
  filters, the size of the canvas that holds an image rotated by an angle that is not a
  multiple of 90 degrees, the outcome of a rotation by an angle too large to be a
  floating-point number without rounding, and whether the platform can allocate an image
  of a requested size. Only \<open>resize\<close>, whose size the client chooses, is modelled as
  failing for lack of memory.
\<close>

record codec =
  decode :: "bytes \<Rightarrow> error + image"
  raw_decode :: "bytes \<Rightarrow> error + image"
  encode_jpeg :: "image \<Rightarrow> bytes"
  lanczos :: "image \<Rightarrow> int \<times> int \<Rightarrow> int \<Rightarrow> int \<Rightarrow> pixel"
  bicubic :: "image \<Rightarrow> int \<Rightarrow> int \<Rightarrow> int \<Rightarrow> pixel"
  rotated_size :: "int \<times> int \<Rightarrow> int \<Rightarrow> int \<times> int"
  rotate_inexact :: "image \<Rightarrow> int \<Rightarrow> error + image"
  allocatable :: "int \<times> int \<Rightarrow> bool"

text \<open>
  \<open>Image.rotate(angle, expand=True, resample=BICUBIC)\<close>. Pillow's angle is
  counter-clockwise and is reduced by \<open>angle % 360.0\<close>, which is the integer remainder
  as long as the angle is a floating-point number without rounding, that is, up to
  \<open>2 ^ 53\<close> in magnitude. Then 0 copies the image, 180, 90 and 270 are exact
  transpositions (\<open>ROTATE_180\<close>, \<open>ROTATE_90\<close>, \<open>ROTATE_270\<close>), and every other angle
  is resampled onto the expanded canvas.
\<close>

definition pil_rotate_exact :: "codec \<Rightarrow> int \<Rightarrow> image \<Rightarrow> image" where
  "pil_rotate_exact c angle im =
     (let a = angle mod 360 in
      if a = 0 then im
      else if a = 180 then
        im\<lparr>pixel_at := \<lambda>x y. pixel_at im (width im - 1 - x) (height im - 1 - y)\<rparr>
      else if a = 90 then
        \<lparr>width = height im, height = width im,
         pixel_at = \<lambda>x y. pixel_at im (width im - 1 - y) x\<rparr>
      else if a = 270 then
        \<lparr>width = height im, height = width im,
         pixel_at = \<lambda>x y. pixel_at im y (height im - 1 - x)\<rparr>
      else
        \<lparr>width = fst (rotated_size c (width im, height im) a),
         height = snd (rotated_size c (width im, height im) a),
         pixel_at = bicubic c im a\<rparr>)"

definition pil_rotate :: "codec \<Rightarrow> int \<Rightarrow> image \<Rightarrow> error + image" where
  "pil_rotate c angle im =
     (if 2 ^ 53 < \<bar>angle\<bar> then rotate_inexact c im angle
      else Inr (pil_rotate_exact c angle im))"

text \<open>\<open>Image.crop((left, upper, right, lower))\<close>.\<close>

definition pil_crop :: "image \<Rightarrow> int \<times> int \<times> int \<times> int \<Rightarrow> image" where
  "pil_crop im box =
     (case box of (left, upper, right, lower) \<Rightarrow>
        \<lparr>width = right - left, height = lower - upper,
         pixel_at = \<lambda>x y. pixel_at im (left + x) (upper + y)\<rparr>)"

text \<open>
  \<open>Image.resize(size, LANCZOS)\<close>: a copy when the size is the image's own; otherwise
  \<open>OverflowError\<close> when a side is not a C \<open>int\<close>, \<open>ValueError\<close> when a side is below 1,
  \<open>MemoryError\<close> when an image of that size cannot be allocated, and else a resampled
  image of exactly the requested size.
\<close>

definition c_int :: "int \<Rightarrow> bool" where
  "c_int n = (- (2 ^ 31) \<le> n \<and> n < 2 ^ 31)"

definition pil_resize :: "codec \<Rightarrow> image \<Rightarrow> int \<times> int \<Rightarrow> error + image" where
  "pil_resize c im sz =
     (if sz = (width im, height im) then Inr im
      else if \<not> c_int (fst sz) \<or> \<not> c_int (snd sz) then Inl OverflowError
      else if fst sz < 1 \<or> snd sz < 1 then Inl (ValueError ''height and width must be > 0'')
      else if \<not> allocatable c sz then Inl MemoryError
      else Inr \<lparr>width = fst sz, height = snd sz, pixel_at = lanczos c im sz\<rparr>)"

text \<open>\<open>ImageOps.mirror\<close> (left-right) and \<open>ImageOps.flip\<close> (top-bottom).\<close>

definition mirror :: "image \<Rightarrow> image" where
  "mirror im = im\<lparr>pixel_at := \<lambda>x y. pixel_at im (width im - 1 - x) y\<rparr>"

definition flip :: "image \<Rightarrow> image" where
  "flip im = im\<lparr>pixel_at := \<lambda>x y. pixel_at im x (height im - 1 - y)\<rparr>"

section \<open>The edit pipeline (\<open>image_processor.py\<close>)\<close>

subsection \<open>One operation, and the loop over the list\<close>

definition apply_operation :: "codec \<Rightarrow> image \<Rightarrow> pydict \<Rightarrow> error + image" where
  "apply_operation c img op =
     (let op_type = dict_get op ''type'' PNone in
      if op_type = PStr ''rotate'' then
        (case as_int (dict_get op ''angle'' (PInt 0)) of
           Inl e \<Rightarrow> Inl e
         | Inr angle \<Rightarrow> pil_rotate c (- angle) img)
      else if op_type = PStr ''crop'' then
        (case as_int (dict_get op ''x'' (PInt 0)) of
           Inl e \<Rightarrow> Inl e
         | Inr x \<Rightarrow>
        (case as_int (dict_get op ''y'' (PInt 0)) of
           Inl e \<Rightarrow> Inl e
         | Inr y \<Rightarrow>
            (let crop_width = dict_get op ''width'' (PInt (width img - x));
                 crop_height = dict_get op ''height'' (PInt (height img - y))
             in if x < 0 \<or> y < 0 then Inl (ValueError ''Invalid crop dimensions'')
                else
                  (case as_int crop_width of
                     Inl e \<Rightarrow> Inl e
                   | Inr w \<Rightarrow>
                       if w \<le> 0 then Inl (ValueError ''Invalid crop dimensions'')
                       else
                         (case as_int crop_height of
                            Inl e \<Rightarrow> Inl e
                          | Inr h \<Rightarrow>
                              if h \<le> 0 then Inl (ValueError ''Invalid crop dimensions'')
                              else if x + w > width img \<or> y + h > height img then
                                Inl (ValueError ''Crop extends beyond image bounds'')
                              else Inr (pil_crop img (x, y, x + w, y + h)))))))
      else if op_type = PStr ''resize'' then
        (let new_width = dict_get op ''width'' PNone;
             new_height = dict_get op ''height'' PNone
         in if truthy new_width \<and> truthy new_height then
              (case as_int new_width of
                 Inl e \<Rightarrow> Inl e
               | Inr w \<Rightarrow>
                   (case as_int new_height of
                      Inl e \<Rightarrow> Inl e
                    | Inr h \<Rightarrow> pil_resize c img (w, h)))
            else if truthy new_width then
              (case as_int new_width of
                 Inl e \<Rightarrow> Inl e
               | Inr w \<Rightarrow>
                   if width img = 0 then Inl ZeroDivisionError
                   else pil_resize c img (w, float_scale (height img) w (width img)))
            else if truthy new_height then
              (case as_int new_height of
                 Inl e \<Rightarrow> Inl e
               | Inr h \<Rightarrow>
                   if height img = 0 then Inl ZeroDivisionError
                   else pil_resize c img (float_scale (width img) h (height img), h))
            else Inr img)
      else if op_type = PStr ''flip'' then
        (let direction = dict_get op ''direction'' (PStr ''horizontal'') in
         if direction = PStr ''horizontal'' then Inr (mirror img)
         else if direction = PStr ''vertical'' then Inr (flip img)
         else Inl (ValueError (''Unknown flip direction: '' @ py_str direction)))
      else Inl (ValueError (''Unknown operation type: '' @ py_str op_type)))"

fun apply_operations :: "codec \<Rightarrow> image \<Rightarrow> pydict list \<Rightarrow> error + image" where
  "apply_operations c img [] = Inr img"
| "apply_operations c img (op # ops) =
     (case apply_operation c img op of
        Inl e \<Rightarrow> Inl e
      | Inr img' \<Rightarrow> apply_operations c img' ops)"


subsection \<open>The file system under the pipeline\<close>

text \<open>
  Directories and regular files, keyed by canonical path; the root directory is \<open>[]\<close>.
  The operating system looks a path up component by component: every component is read
  in a directory, \<open>..\<close> steps to the parent. No symbolic links in this part of the model.
\<close>

datatype entry = File bytes | Dir

type_synonym filesystem = "path \<rightharpoonup> entry"

fun walk :: "filesystem \<Rightarrow> path \<Rightarrow> string list \<Rightarrow> path option" where
  "walk fs cur [] = Some cur"
| "walk fs cur (c # cs) =
     (if fs cur \<noteq> Some Dir then None
      else if c = ''..'' then walk fs (butlast cur) cs
      else walk fs (cur @ [c]) cs)"

text \<open>\<open>Path.exists()\<close>.\<close>

definition exists :: "filesystem \<Rightarrow> path \<Rightarrow> bool" where
  "exists fs p = (case walk fs [] p of None \<Rightarrow> False | Some q \<Rightarrow> fs q \<noteq> None)"

text \<open>Reading a whole file, and creating or truncating a file and writing it.\<close>

definition read_file :: "filesystem \<Rightarrow> path \<Rightarrow> error + bytes" where
  "read_file fs p =
     (case walk fs [] p of
        None \<Rightarrow> Inl FileNotFoundError
      | Some q \<Rightarrow>
          (case fs q of
             None \<Rightarrow> Inl FileNotFoundError
           | Some Dir \<Rightarrow> Inl IsADirectoryError
           | Some (File b) \<Rightarrow> Inr b))"

definition write_file :: "filesystem \<Rightarrow> path \<Rightarrow> bytes \<Rightarrow> error + filesystem" where
  "write_file fs p b =
     (case walk fs [] p of
        None \<Rightarrow> Inl FileNotFoundError
      | Some q \<Rightarrow>
          (case fs q of
             Some Dir \<Rightarrow> Inl IsADirectoryError
           | _ \<Rightarrow> Inr (fs(q \<mapsto> File b))))"

subsection \<open>Name, stem and suffix of a path\<close>

definition name_of :: "path \<Rightarrow> string" where
  "name_of p = (if p = [] then [] else last p)"

definition parent :: "path \<Rightarrow> path" where
  "parent p = butlast p"

text \<open>\<open>name.rfind(".")\<close>, and pathlib's rule \<open>0 < i < len(name) - 1\<close> for a suffix.\<close>

definition rfind_dot :: "string \<Rightarrow> nat option" where
  "rfind_dot s =
     (if CHR ''.'' \<in> set s
      then Some (length s - 1 - length (takeWhile (\<lambda>c. c \<noteq> CHR ''.'') (rev s)))
      else None)"

definition suffix_of :: "string \<Rightarrow> string" where
  "suffix_of name =
     (case rfind_dot name of
        None \<Rightarrow> []
      | Some i \<Rightarrow> if 0 < i \<and> i < length name - 1 then drop i name else [])"

definition stem_of :: "string \<Rightarrow> string" where
  "stem_of name =
     (case rfind_dot name of
        None \<Rightarrow> name
      | Some i \<Rightarrow> if 0 < i \<and> i < length name - 1 then take i name else name)"

definition lower_char :: "char \<Rightarrow> char" where
  "lower_char c =
     (let n = (of_char c :: nat) in if 65 \<le> n \<and> n \<le> 90 then char_of (n + 32) else c)"

definition RAW_EXTENSIONS :: "string list" where
  "RAW_EXTENSIONS =
     [''.raw'', ''.cr2'', ''.cr3'', ''.nef'', ''.arw'', ''.dng'', ''.orf'', ''.rw2'', ''.pef'',
      ''.srw'']"

subsection \<open>\<open>ImageProcessor.apply_edits\<close>\<close>

text \<open>The load phase; \<open>has_rawpy\<close> is the module's \<open>HAS_RAWPY\<close>.\<close>

definition load_image :: "codec \<Rightarrow> bool \<Rightarrow> filesystem \<Rightarrow> path \<Rightarrow> error + image" where
  "load_image c has_rawpy fs file_path =
     (if map lower_char (suffix_of (name_of file_path)) \<in> set RAW_EXTENSIONS then
        (if \<not> has_rawpy then Inl (ValueError ''RAW file support not available'')
         else (case read_file fs file_path of
                 Inl e \<Rightarrow> Inl e
               | Inr b \<Rightarrow> raw_decode c b))
      else (case read_file fs file_path of
              Inl e \<Rightarrow> Inl e
            | Inr b \<Rightarrow> decode c b))"

text \<open>
  The loop \<open>while output_path.exists()\<close>. It has no bound in the source, so it is a
  partial function: \<open>None\<close> is the loop that never ends.
\<close>

partial_function (option) while_exists ::
  "filesystem \<Rightarrow> path \<Rightarrow> string \<Rightarrow> string \<Rightarrow> string \<Rightarrow> nat \<Rightarrow> path \<Rightarrow> path option" where
  "while_exists fs dir output_prefix stem output_suffix counter output_path =
     (if exists fs output_path then
        while_exists fs dir output_prefix stem output_suffix (counter + 1)
          (joinpath dir (output_prefix @ stem @ output_suffix @ ''_'' @ str_nat counter @ ''.jpg''))
      else Some output_path)"

text \<open>
  The whole method. The result pairs what the call returns or raises with the file system
  it leaves; \<open>None\<close> is a call that does not return.
\<close>

definition apply_edits ::
  "codec \<Rightarrow> bool \<Rightarrow> filesystem \<Rightarrow> path \<Rightarrow> pydict list \<Rightarrow> string \<Rightarrow> string
     \<Rightarrow> ((error + path) \<times> filesystem) option" where
  "apply_edits c has_rawpy fs file_path operations output_prefix output_suffix =
     (case load_image c has_rawpy fs file_path of
        Inl e \<Rightarrow> Some (Inl e, fs)
      | Inr img \<Rightarrow>
          (case apply_operations c img operations of
             Inl e \<Rightarrow> Some (Inl e, fs)
           | Inr img' \<Rightarrow>
               (let stem = stem_of (name_of file_path);
                    output_name = output_prefix @ stem @ output_suffix @ ''.jpg'';
                    output_path = joinpath (parent file_path) output_name
                in case while_exists fs (parent file_path) output_prefix stem output_suffix 1
                          output_path of
                     None \<Rightarrow> None
                   | Some output_path' \<Rightarrow>
                       (case write_file fs output_path' (encode_jpeg c img') of
                          Inl e \<Rightarrow> Some (Inl e, fs)
                        | Inr fs' \<Rightarrow> Some (Inr output_path', fs')))))"

section \<open>Auxiliary notions\<close>

text \<open>
  The resolver as the specification words it, for one root: the candidate is the root
  joined with the parsed relative path, resolved; it is accepted when the resolved root
  is a prefix of it, component by component, and rejected with \<open>denied\<close> otherwise.
  What the resolution of the candidate raises is passed on, and what the resolution of
  the root raises goes through the handler.
\<close>

definition sandbox_steps ::
  "(path \<Rightarrow> error + path) \<Rightarrow> error \<Rightarrow> path \<Rightarrow> string \<Rightarrow> error + path" where
  "sandbox_steps resolve denied broot relative =
     (case resolve (broot @ parts relative) of
        Inl e \<Rightarrow> Inl e
      | Inr candidate \<Rightarrow>
          (case resolve broot of
             Inl e \<Rightarrow> Inl (except_ValueError denied e)
           | Inr canonical_root \<Rightarrow>
               if prefix canonical_root candidate then Inr candidate else Inl denied))"

text \<open>A proper path component, as \<open>parts\<close> produces them.\<close>

definition is_component :: "string \<Rightarrow> bool" where
  "is_component p = (p \<noteq> [] \<and> p \<noteq> ''.'' \<and> CHR ''/'' \<notin> set p)"

text \<open>The tail \<open>_{counter}.jpg\<close> of a numbered output name.\<close>

definition numbered :: "nat \<Rightarrow> string" where
  "numbered k = ''_'' @ str_nat k @ ''.jpg''"

text \<open>The size of the image an operation returns, with its error kept.\<close>

fun dimensions :: "error + image \<Rightarrow> error + int \<times> int" where
  "dimensions (Inl e) = Inl e"
| "dimensions (Inr im) = Inr (width im, height im)"

text \<open>The pixel at a position of the image an operation returns, with its error kept.\<close>

fun pixel_of :: "error + image \<Rightarrow> int \<times> int \<Rightarrow> error + pixel" where
  "pixel_of (Inl e) xy = Inl e"
| "pixel_of (Inr im) xy = Inr (pixel_at im (fst xy) (snd xy))"

text \<open>
  \<open>carries im res src dst\<close>: the pixel of \<open>im\<close> at \<open>src\<close> is found in \<open>res\<close> at \<open>dst\<close>,
  and \<open>dst\<close> lies on the canvas of \<open>res\<close>.
\<close>

definition carries :: "image \<Rightarrow> image \<Rightarrow> int \<times> int \<Rightarrow> int \<times> int \<Rightarrow> bool" where
  "carries im res src dst =
     (0 \<le> fst dst \<and> fst dst < width res \<and> 0 \<le> snd dst \<and> snd dst < height res \<and>
      pixel_at res (fst dst) (snd dst) = pixel_at im (fst src) (snd src))"

text \<open>
  The behaviour the specification words for a resize with both sides given: the result
  fits in the box and keeps the aspect ratio of the \<open>W \<times> H\<close> original, up to the rounding
  of one side to a whole pixel.
\<close>

definition fits_preserving_aspect :: "int \<times> int \<Rightarrow> int \<times> int \<Rightarrow> int \<times> int \<Rightarrow> bool" where
  "fits_preserving_aspect orig box res =
     (fst res \<le> fst box \<and> snd res \<le> snd box \<and>
      \<bar>fst res * snd orig - snd res * fst orig\<bar> \<le> max (fst orig) (snd orig))"

section \<open>Reference instances\<close>

text \<open>
  Concrete values on which the model runs: a link table with a symbolic link that
  leaves \<open>/mnt\<close> and one that points to itself, an image whose pixel at \<open>(x, y)\<close> records its own coordinates, a codec
  whose files hold the image size in hundreds of pixels (two bytes), with nearest-neighbour
  resampling and room for images of up to \<open>2 ^ 28\<close> pixels, and a small directory tree.
\<close>

definition demo_links :: "path \<rightharpoonup> path" where
  "demo_links =
     [[''mnt'', ''photos'', ''out''] \<mapsto> [''etc''],
      [''mnt'', ''loop''] \<mapsto> [''mnt'', ''loop'']]"

definition sample_image :: "int \<Rightarrow> int \<Rightarrow> image" where
  "sample_image w h = \<lparr>width = w, height = h, pixel_at = \<lambda>x y. (nat x, nat y, 0)\<rparr>"

definition reference_decode :: "bytes \<Rightarrow> error + image" where
  "reference_decode b =
     (case b of
        w # h # _ \<Rightarrow> Inr (sample_image (100 * of_char w) (100 * of_char h))
      | _ \<Rightarrow> Inl UnidentifiedImageError)"

definition reference_codec :: codec where
  "reference_codec =
     \<lparr>decode = reference_decode,
      raw_decode = reference_decode,
      encode_jpeg = (\<lambda>im. [char_of (width im div 100), char_of (height im div 100)]),
      lanczos = (\<lambda>im sz x y. pixel_at im (x * width im div fst sz) (y * height im div snd sz)),
      bicubic = (\<lambda>im a x y. pixel_at im x y),
      rotated_size = (\<lambda>sz a. (fst sz + snd sz, fst sz + snd sz)),
      rotate_inexact = (\<lambda>im a. Inl OverflowError),
      allocatable = (\<lambda>sz. fst sz * snd sz \<le> 2 ^ 28)\<rparr>"

definition demo_fs :: filesystem where
  "demo_fs =
     [[] \<mapsto> Dir,
      [''mnt''] \<mapsto> Dir,
      [''mnt'', ''g''] \<mapsto> Dir,
      [''mnt'', ''g'', ''photo.jpg''] \<mapsto> File [CHR 0x28, CHR 0x1E]]"

text \<open>The same tree after two earlier edits of \<open>photo.jpg\<close>.\<close>

definition cluttered_fs :: filesystem where
  "cluttered_fs =
     demo_fs([''mnt'', ''g'', ''photo_edited.jpg''] \<mapsto> File [CHR 0x1E, CHR 0x14],
             [''mnt'', ''g'', ''photo_edited_1.jpg''] \<mapsto> File [CHR 0x1E, CHR 0x14])"

text \<open>Operation records as a client sends them.\<close>

definition rotate_op :: "int \<Rightarrow> pydict" where
  "rotate_op a = [''type'' \<mapsto> PStr ''rotate'', ''angle'' \<mapsto> PInt a]"

definition crop_op :: "int \<Rightarrow> int \<Rightarrow> int \<Rightarrow> int \<Rightarrow> pydict" where
  "crop_op x y w h =
     [''type'' \<mapsto> PStr ''crop'', ''x'' \<mapsto> PInt x, ''y'' \<mapsto> PInt y,
      ''width'' \<mapsto> PInt w, ''height'' \<mapsto> PInt h]"

definition crop_from :: "int \<Rightarrow> int \<Rightarrow> pydict" where
  "crop_from x y = [''type'' \<mapsto> PStr ''crop'', ''x'' \<mapsto> PInt x, ''y'' \<mapsto> PInt y]"

definition resize_op :: "int \<Rightarrow> int \<Rightarrow> pydict" where
  "resize_op w h = [''type'' \<mapsto> PStr ''resize'', ''width'' \<mapsto> PInt w, ''height'' \<mapsto> PInt h]"

definition resize_width_op :: "int \<Rightarrow> pydict" where
  "resize_width_op w = [''type'' \<mapsto> PStr ''resize'', ''width'' \<mapsto> PInt w]"

definition flip_op :: "pydict" where
  "flip_op = [''type'' \<mapsto> PStr ''flip'']"

definition flip_dir_op :: "pyval \<Rightarrow> pydict" where
  "flip_dir_op d = [''type'' \<mapsto> PStr ''flip'', ''direction'' \<mapsto> d]"

definition blur_op :: pydict where
  "blur_op = [''type'' \<mapsto> PStr ''blur'']"

section \<open>Path parsing\<close>

lemma split_slash_nonempty: "split_slash s \<noteq> []"
  by (induction s) (auto split: list.splits)

lemma split_slash_noslash: "CHR ''/'' \<notin> set p \<Longrightarrow> split_slash p = [p]"
  by (induction p) auto

lemma split_slash_app: "CHR ''/'' \<notin> set p \<Longrightarrow> split_slash (p @ CHR ''/'' # r) = p # split_slash r"
  by (induction p) auto

lemma split_slash_elems: "w \<in> set (split_slash s) \<Longrightarrow> CHR ''/'' \<notin> set w"
  by (induction s arbitrary: w) (auto split: list.splits if_splits)

lemma parts_component: "p \<in> set (parts s) \<Longrightarrow> is_component p"
  by (auto simp: parts_def is_component_def dest: split_slash_elems)

lemma split_join: "ps \<noteq> [] \<Longrightarrow> \<forall>p\<in>set ps. CHR ''/'' \<notin> set p \<Longrightarrow> split_slash (join_slash ps) = ps"
  by (induction ps rule: join_slash.induct) (auto simp: split_slash_noslash split_slash_app)

lemma parts_join: "\<forall>p\<in>set ps. is_component p \<Longrightarrow> parts (join_slash ps) = ps"
proof (cases "ps = []")
  case True then show ?thesis by (simp add: parts_def)
next
  case False
  assume g: "\<forall>p\<in>set ps. is_component p"
  then have "split_slash (join_slash ps) = ps" using False by (intro split_join) (auto simp: is_component_def)
  then show ?thesis using g by (auto simp: parts_def is_component_def filter_id_conv)
qed

lemma join_hd: "ps \<noteq> [] \<Longrightarrow> \<forall>p\<in>set ps. is_component p \<Longrightarrow> join_slash ps \<noteq> [] \<and> hd (join_slash ps) \<noteq> CHR ''/''"
  by (induction ps rule: join_slash.induct) (auto simp: is_component_def hd_append dest: hd_in_set)

lemma lstrip_root: "lstrip_slash (posix_root s @ t) = lstrip_slash t"
  by (auto simp: lstrip_slash_def posix_root_def Let_def)

lemma lstrip_id: "t \<noteq> [] \<Longrightarrow> hd t \<noteq> CHR ''/'' \<Longrightarrow> lstrip_slash t = t"
  by (cases t) (auto simp: lstrip_slash_def)

lemma lstrip_root_only: "lstrip_slash (posix_root s) = []"
  by (auto simp: lstrip_slash_def posix_root_def Let_def)

lemma clean_path_cases:
  "lstrip_slash (as_posix s) =
     (if parts s \<noteq> [] then join_slash (parts s) else if posix_root s = [] then ''.'' else [])"
  using join_hd[of "parts s"] parts_component[of _ s]
  by (auto simp: as_posix_def lstrip_root lstrip_id lstrip_root_only)

lemma joinpath_clean: "joinpath base (lstrip_slash (as_posix s)) = base @ parts s"
  using join_hd[of "parts s"] parts_component[of _ s] parts_join[of "parts s"]
  apply (auto simp: clean_path_cases joinpath_def is_absolute_def split: list.splits)
  apply (auto simp: parts_def)
  done

lemma clean_empty: "lstrip_slash (as_posix s) = [] \<Longrightarrow> parts s = []"
  using join_hd[of "parts s"] parts_component[of _ s]
  by (auto simp: clean_path_cases split: if_splits)

lemma candidate_eq:
  "(if lstrip_slash (as_posix s) \<noteq> [] then resolve (joinpath broot (lstrip_slash (as_posix s)))
    else resolve broot) = resolve (broot @ parts s)"
  by (auto simp: joinpath_clean clean_empty)

lemma browse_path_eq:
  "get_safe_browse_path resolve broot rel =
     sandbox_steps resolve (HTTPException 403 ''Access denied: path outside browse root'') broot rel"
  unfolding get_safe_browse_path_def sandbox_steps_def Let_def candidate_eq
  by (simp add: relative_to_def split: sum.splits)

lemma second_phase:
  "(let clean_path = lstrip_slash (as_posix rel);
        denied = HTTPException 403 ''Access denied: path outside gallery root''
    in case (if clean_path \<noteq> [] then resolve (joinpath base clean_path) else resolve base) of
         Inl e \<Rightarrow> Inl e
       | Inr full_path \<Rightarrow>
           (case resolve base of
              Inl e \<Rightarrow> Inl (except_ValueError denied e)
            | Inr broot \<Rightarrow>
                (case relative_to full_path broot of
                   Inl e \<Rightarrow> Inl (except_ValueError denied e)
                 | Inr _ \<Rightarrow> Inr (full_path, base))))
   = (case sandbox_steps resolve (HTTPException 403 ''Access denied: path outside gallery root'')
             base rel of
        Inl e \<Rightarrow> Inl e
      | Inr full_path \<Rightarrow> Inr (full_path, base))"
  unfolding sandbox_steps_def Let_def candidate_eq
  by (simp add: relative_to_def split: sum.splits)

lemma gallery_eq:
  "get_safe_gallery_path resolve broot rel groot =
     (if groot = [] then Inl (HTTPException 400 ''No gallery selected. Please select a folder first.'')
      else case sandbox_steps resolve (HTTPException 403 ''Access denied: path outside browse root'')
                  broot groot of
             Inl e \<Rightarrow> Inl e
           | Inr gallery_base \<Rightarrow>
               (case sandbox_steps resolve
                       (HTTPException 403 ''Access denied: path outside gallery root'')
                       gallery_base rel of
                  Inl e \<Rightarrow> Inl e
                | Inr full_path \<Rightarrow> Inr (full_path, gallery_base)))"
  unfolding get_safe_gallery_path_def second_phase browse_path_eq by (rule refl)

lemma sandbox_steps_accepts:
  "sandbox_steps resolve denied broot rel = Inr p \<longleftrightarrow>
     resolve (broot @ parts rel) = Inr p \<and> (\<exists>r. resolve broot = Inr r \<and> prefix r p)"
  by (auto simp: sandbox_steps_def split: sum.splits)

section \<open>Decimal numbers and numbered names\<close>

lemma digit_char_inj: "a < 10 \<Longrightarrow> b < 10 \<Longrightarrow> digit_char a = digit_char b \<Longrightarrow> a = b"
  unfolding digit_char_def
  by (subst (asm) nth_eq_iff_index_eq) auto

lemma str_nat_nonempty: "str_nat n \<noteq> []"
  by (subst str_nat.simps) simp

lemma str_nat_last: "last (str_nat n) = digit_char (n mod 10)"
  by (subst str_nat.simps) simp

lemma str_nat_butlast: "butlast (str_nat n) = (if n < 10 then [] else str_nat (n div 10))"
  by (subst str_nat.simps) simp

lemma str_nat_inj: "str_nat n = str_nat m \<Longrightarrow> n = m"
proof (induction n arbitrary: m rule: less_induct)
  case (less n)
  have l: "digit_char (n mod 10) = digit_char (m mod 10)"
    using less.prems str_nat_last by metis
  then have d: "n mod 10 = m mod 10" by (intro digit_char_inj) auto
  have b: "butlast (str_nat n) = butlast (str_nat m)" using less.prems by simp
  show ?case
  proof (cases "n < 10")
    case True
    then have "m < 10" using b str_nat_nonempty[of "m div 10"] by (auto simp: str_nat_butlast split: if_splits)
    then show ?thesis using True d by simp
  next
    case False
    then have m: "\<not> m < 10" using b str_nat_nonempty[of "n div 10"] by (auto simp: str_nat_butlast split: if_splits)
    then have "str_nat (n div 10) = str_nat (m div 10)" using b False by (simp add: str_nat_butlast)
    then have "n div 10 = m div 10" using less.IH[of "n div 10" "m div 10"] False by simp
    then show ?thesis using d by (metis div_mult_mod_eq)
  qed
qed

lemma digit_char_noslash: "d < 10 \<Longrightarrow> digit_char d \<noteq> CHR ''/''"
proof -
  assume "d < 10"
  then have "digit_char d \<in> set ''0123456789''" unfolding digit_char_def by (intro nth_mem) simp
  then show ?thesis by auto
qed

lemma str_nat_noslash: "CHR ''/'' \<notin> set (str_nat n)"
proof (induction n rule: less_induct)
  case (less n)
  show ?case
  proof (cases "n < 10")
    case True then show ?thesis using digit_char_noslash[of n] by (subst str_nat.simps) auto
  next
    case False
    then show ?thesis using less.IH[of "n div 10"] digit_char_noslash[of "n mod 10"]
      by (subst str_nat.simps) auto
  qed
qed


lemma split_slash_snoc:
  "CHR ''/'' \<notin> set t \<Longrightarrow> split_slash (s @ t) = butlast (split_slash s) @ [last (split_slash s) @ t]"
proof (induction s)
  case Nil
  then show ?case by (induction t) auto
next
  case (Cons c s)
  then show ?case using split_slash_nonempty[of s] split_slash_nonempty[of "s @ t"]
    by (auto split: list.splits)
qed

lemma is_absolute_snoc: "t \<noteq> [] \<Longrightarrow> hd t \<noteq> CHR ''/'' \<Longrightarrow> is_absolute (s @ t) = is_absolute s"
  by (cases s; cases t) (auto simp: is_absolute_def)

lemma numbered_inj: "numbered k = numbered k' \<Longrightarrow> k = k'"
  by (auto simp: numbered_def dest: str_nat_inj)

lemma numbered_noslash: "CHR ''/'' \<notin> set (numbered k)"
  by (auto simp: numbered_def str_nat_noslash)

lemma numbered_hd: "numbered k \<noteq> [] \<and> hd (numbered k) \<noteq> CHR ''/''"
  by (simp add: numbered_def)

lemma snoc_numbered_normal:
  "l @ numbered k \<noteq> [] \<and> l @ numbered k \<noteq> ''.'' \<and> l @ numbered k \<noteq> ''..''"
proof -
  have "last (l @ numbered k) = CHR ''g''" by (simp add: numbered_def)
  then show ?thesis by (auto simp: numbered_def)
qed

lemma parts_snoc_numbered:
  "parts (s @ numbered k) =
     filter (\<lambda>c. c \<noteq> [] \<and> c \<noteq> ''.'') (butlast (split_slash s)) @ [last (split_slash s) @ numbered k]"
  using snoc_numbered_normal[of "last (split_slash s)" k]
  by (simp add: parts_def split_slash_snoc[OF numbered_noslash])

lemma joinpath_numbered:
  "joinpath dir (s @ numbered k) =
     (if is_absolute s then [] else dir)
       @ filter (\<lambda>c. c \<noteq> [] \<and> c \<noteq> ''.'') (butlast (split_slash s))
       @ [last (split_slash s) @ numbered k]"
  using numbered_hd[of k]
  by (simp add: joinpath_def is_absolute_snoc parts_snoc_numbered)

lemma walk_append:
  "walk fs cur (xs @ ys) = (case walk fs cur xs of None \<Rightarrow> None | Some d \<Rightarrow> walk fs d ys)"
  by (induction xs arbitrary: cur) auto

lemma walk_snoc:
  "c \<noteq> ''..'' \<Longrightarrow> walk fs cur (xs @ [c]) = Some q \<Longrightarrow> \<exists>d. walk fs cur xs = Some d \<and> q = d @ [c]"
  by (auto simp: walk_append split: option.splits if_splits)

lemma exists_target:
  "exists fs p \<Longrightarrow> \<exists>q. walk fs [] p = Some q \<and> q \<in> dom fs"
  by (auto simp: exists_def split: option.splits)

lemma finite_existing_numbered:
  assumes "finite (dom fs)"
  shows "finite {k. exists fs (joinpath dir (s @ numbered k))}"
proof -
  define D where "D = (if is_absolute s then [] else dir)
       @ filter (\<lambda>c. c \<noteq> [] \<and> c \<noteq> ''.'') (butlast (split_slash s))"
  define L where "L = last (split_slash s)"
  have name: "joinpath dir (s @ numbered k) = D @ [L @ numbered k]" for k
    by (simp add: joinpath_numbered D_def L_def)
  define S where "S = {k. exists fs (D @ [L @ numbered k])}"
  define f where "f = (\<lambda>k. the (walk fs [] (D @ [L @ numbered k])))"
  have tgt: "\<exists>d. walk fs [] D = Some d \<and> f k = d @ [L @ numbered k] \<and> f k \<in> dom fs" if "k \<in> S" for k
  proof -
    from that obtain q where q: "walk fs [] (D @ [L @ numbered k]) = Some q" "q \<in> dom fs"
      using exists_target[of fs "D @ [L @ numbered k]"] by (auto simp: S_def)
    then obtain d where "walk fs [] D = Some d" "q = d @ [L @ numbered k]"
      using walk_snoc[of "L @ numbered k" fs "[]" D q] snoc_numbered_normal[of L k] by auto
    then show ?thesis using q by (auto simp: f_def)
  qed
  have "inj_on f S"
  proof (rule inj_onI)
    fix k k' assume "k \<in> S" "k' \<in> S" "f k = f k'"
    then show "k = k'" using tgt[of k] tgt[of k'] by (auto dest: numbered_inj)
  qed
  moreover have "f ` S \<subseteq> dom fs" using tgt by auto
  ultimately have "finite S" using assms by (meson finite_imageD finite_subset)
  then show ?thesis by (simp add: S_def name)
qed

lemma while_exists_numbered:
  "while_exists fs dir pre stem suf counter path =
     (if exists fs path then
        while_exists fs dir pre stem suf (counter + 1) (joinpath dir ((pre @ stem @ suf) @ numbered counter))
      else Some path)"
  by (subst while_exists.simps) (simp add: numbered_def)

lemma while_exists_bounded:
  assumes "\<forall>k\<ge>N. \<not> exists fs (joinpath dir ((pre @ stem @ suf) @ numbered k))"
  shows "\<exists>p. while_exists fs dir pre stem suf counter path = Some p \<and> \<not> exists fs p"
proof (induction "N - counter" arbitrary: counter path)
  case 0
  then have "\<not> exists fs (joinpath dir ((pre @ stem @ suf) @ numbered counter))" using assms by simp
  then show ?case
    by (subst while_exists_numbered, subst while_exists_numbered) auto
next
  case (Suc m)
  then have "m = N - (counter + 1)" by simp
  from Suc.hyps(1)[OF this] show ?case
    by (subst while_exists_numbered) auto
qed

lemma while_exists_terminates:
  assumes "finite (dom fs)"
  shows "\<exists>p. while_exists fs dir pre stem suf counter path = Some p \<and> \<not> exists fs p"
proof -
  have "finite {k. exists fs (joinpath dir ((pre @ stem @ suf) @ numbered k))}"
    using assms by (rule finite_existing_numbered)
  then obtain N where "\<forall>k\<in>{k. exists fs (joinpath dir ((pre @ stem @ suf) @ numbered k))}. k < N"
    using finite_nat_set_iff_bounded by blast
  then have "\<forall>k\<ge>N. \<not> exists fs (joinpath dir ((pre @ stem @ suf) @ numbered k))" by auto
  then show ?thesis by (rule while_exists_bounded)
qed

lemma while_exists_free:
  assumes "while_exists fs dir pre stem suf counter path = Some p"
  shows "\<not> exists fs p"
  by (rule while_exists.raw_induct[where P = "\<lambda>fs _ _ _ _ _ _ p. \<not> exists fs p", OF _ assms])
     (auto split: if_splits)

lemma map_le_walk: "fs \<subseteq>\<^sub>m fs' \<Longrightarrow> walk fs cur cs = Some q \<Longrightarrow> walk fs' cur cs = Some q"
proof (induction cs arbitrary: cur)
  case Nil then show ?case by simp
next
  case (Cons c cs)
  from Cons.prems have d: "fs cur = Some Dir" by (auto split: if_splits)
  then have "fs' cur = Some Dir" using Cons.prems(1) by (metis domI map_le_def)
  then show ?case using Cons d by (auto split: if_splits)
qed

lemma map_le_read_file: "fs \<subseteq>\<^sub>m fs' \<Longrightarrow> read_file fs p = Inr b \<Longrightarrow> read_file fs' p = Inr b"
proof -
  assume le: "fs \<subseteq>\<^sub>m fs'" and r: "read_file fs p = Inr b"
  from r obtain q where q: "walk fs [] p = Some q" "fs q = Some (File b)"
    by (auto simp: read_file_def split: option.splits entry.splits)
  then have "walk fs' [] p = Some q" "fs' q = Some (File b)"
    using le map_le_walk by (auto simp: map_le_def dom_def)
  then show ?thesis by (simp add: read_file_def)
qed

lemma write_file_new:
  "\<not> exists fs p \<Longrightarrow> write_file fs p b = Inr fs' \<Longrightarrow>
     \<exists>q. walk fs [] p = Some q \<and> fs q = None \<and> fs' = fs(q \<mapsto> File b)"
  by (auto simp: exists_def write_file_def split: option.splits entry.splits)

lemma write_file_new_le: "\<not> exists fs p \<Longrightarrow> write_file fs p b = Inr fs' \<Longrightarrow> fs \<subseteq>\<^sub>m fs'"
  by (auto dest!: write_file_new simp: map_le_def)

lemma load_image_reads: "load_image c r fs p = Inr im \<Longrightarrow> \<exists>b. read_file fs p = Inr b"
  by (auto simp: load_image_def split: if_splits sum.splits)

lemma apply_edits_cases:
  assumes "apply_edits c r fs src ops pre suf = Some (res, fs')"
  shows "(\<exists>e. res = Inl e \<and> fs' = fs) \<or>
         (\<exists>im im' p q. load_image c r fs src = Inr im \<and> apply_operations c im ops = Inr im' \<and>
            while_exists fs (parent src) pre (stem_of (name_of src)) suf 1
              (joinpath (parent src) (pre @ stem_of (name_of src) @ suf @ ''.jpg'')) = Some p \<and>
            \<not> exists fs p \<and> walk fs [] p = Some q \<and> fs q = None \<and>
            res = Inr p \<and> fs' = fs(q \<mapsto> File (encode_jpeg c im')))"
  using assms
  by (auto simp: apply_edits_def Let_def split: sum.splits option.splits
      dest: while_exists_free dest!: write_file_new)

lemma apply_edits_total:
  assumes "finite (dom fs)"
  shows "\<exists>res fs'. apply_edits c r fs src ops pre suf = Some (res, fs')"
proof -
  obtain p where "while_exists fs (parent src) pre (stem_of (name_of src)) suf 1
              (joinpath (parent src) (pre @ stem_of (name_of src) @ suf @ ''.jpg'')) = Some p"
    using while_exists_terminates[OF assms] by blast
  then show ?thesis
    by (auto simp: apply_edits_def Let_def split: sum.splits option.splits)
qed

lemma apply_edits_frame:
  assumes "apply_edits c r fs src ops pre suf = Some (res, fs')"
  shows "fs \<subseteq>\<^sub>m fs' \<and> read_file fs' src = read_file fs src"
proof -
  from apply_edits_cases[OF assms] show ?thesis
  proof
    assume "\<exists>e. res = Inl e \<and> fs' = fs" then show ?thesis by auto
  next
    assume "\<exists>im im' p q. load_image c r fs src = Inr im \<and> apply_operations c im ops = Inr im' \<and>
            while_exists fs (parent src) pre (stem_of (name_of src)) suf 1
              (joinpath (parent src) (pre @ stem_of (name_of src) @ suf @ ''.jpg'')) = Some p \<and>
            \<not> exists fs p \<and> walk fs [] p = Some q \<and> fs q = None \<and>
            res = Inr p \<and> fs' = fs(q \<mapsto> File (encode_jpeg c im'))"
    then obtain im q im' where l: "load_image c r fs src = Inr im" and q: "fs q = None"
      and f: "fs' = fs(q \<mapsto> File (encode_jpeg c im'))" by blast
    from q f have le: "fs \<subseteq>\<^sub>m fs'" by (auto simp: map_le_def)
    from l obtain b where "read_file fs src = Inr b" using load_image_reads by blast
    then show ?thesis using le map_le_read_file by fastforce
  qed
qed


section \<open>Rounding to 53 bits\<close>

text \<open>
  The error of one rounding is at most \<open>2 ^ -53\<close> of the exact value. The value of
  \<open>H * (w / W)\<close> in doubles is therefore within \<open>3 * 2 ^ -53\<close> of the exact quotient
  \<open>H * w / W\<close>, relatively; as long as \<open>H * w < 2 ^ 51\<close> that is less than the distance
  \<open>1 / W\<close> between the quotient and the next multiple of \<open>1 / W\<close>, so truncation gives
  the whole part of the quotient, or one less when the quotient is a whole number and the
  double fell just below it.
\<close>

lemmas float_defs = float_scale_def py_int_def py_mul_int_def py_truediv_def round53_def
  round_half_even_def binary_exponent_def bit_length.simps Let_def

lemma bit_length_bounds: "0 < n \<Longrightarrow> 2 ^ (bit_length n - 1) \<le> n \<and> n < 2 ^ bit_length n"
proof (induction n rule: less_induct)
  case (less n)
  show ?case
  proof (cases "n div 2 = 0")
    case True
    then have "n = 1" using less.prems by auto
    then show ?thesis by (simp add: bit_length.simps)
  next
    case False
    then have ih: "2 ^ (bit_length (n div 2) - 1) \<le> n div 2 \<and> n div 2 < 2 ^ bit_length (n div 2)"
      using less.IH[of "n div 2"] less.prems by auto
    have bl: "bit_length n = Suc (bit_length (n div 2))"
      using less.prems by (subst bit_length.simps) simp
    have pos: "0 < bit_length (n div 2)" using False by (subst bit_length.simps) simp
    then obtain j where j: "bit_length (n div 2) = Suc j" by (cases "bit_length (n div 2)") auto
    show ?thesis using ih unfolding bl j by auto
  qed
qed

lemma two_powi_add: "(2::real) powi (m + n) = 2 powi m * 2 powi n"
  by (simp add: power_int_add)

lemma two_powi_nonneg: "0 \<le> k \<Longrightarrow> (2::real) powi k = 2 ^ nat k"
  by (simp add: power_int_def)

lemma two_powi_neg: "k < 0 \<Longrightarrow> (2::real) powi k = inverse (2 ^ nat (- k))"
  by (simp add: power_int_def power_one_over inverse_eq_divide)

lemma bit_length_real:
  assumes "0 < p"
  shows "(2::real) powi (int (bit_length (nat p)) - 1) \<le> of_int p"
    and "of_int p < (2::real) powi (int (bit_length (nat p)))"
proof -
  define n where "n = nat p"
  define j where "j = bit_length n - 1"
  have n: "0 < n" using assms by (simp add: n_def)
  have rp: "real_of_int p = real n" using assms by (simp add: n_def)
  from bit_length_bounds[OF n]
  have a: "2 ^ j \<le> n" and b: "n < 2 ^ bit_length n" by (auto simp: j_def)
  have pos: "0 < bit_length n" using n by (subst bit_length.simps) simp
  then have bl: "bit_length n = Suc j" by (simp add: j_def)
  have e1: "int (bit_length n) - 1 = int j" by (simp add: bl)
  have "real (2 ^ j) \<le> real n" using a by (simp only: of_nat_le_iff)
  then have "(2::real) ^ j \<le> real n" by simp
  then show "(2::real) powi (int (bit_length (nat p)) - 1) \<le> of_int p"
    unfolding n_def[symmetric] e1 rp by simp
  have "real n < real (2 ^ bit_length n)" using b by (simp only: of_nat_less_iff)
  then have "real n < (2::real) ^ bit_length n" by simp
  then show "of_int p < (2::real) powi (int (bit_length (nat p)))"
    unfolding n_def[symmetric] rp by simp
qed

lemma binary_exponent_test:
  assumes "0 < p" "0 < q"
  shows "(if 0 \<le> k then q * 2 ^ nat k \<le> p else q \<le> p * 2 ^ nat (- k))
          \<longleftrightarrow> real_of_int q * 2 powi k \<le> real_of_int p"
proof (cases "0 \<le> k")
  case True
  then have "(2::real) powi k = 2 ^ nat k" by (simp add: two_powi_nonneg)
  moreover have "(q * 2 ^ nat k \<le> p) = (real_of_int (q * 2 ^ nat k) \<le> real_of_int p)"
    by (simp only: of_int_le_iff)
  ultimately show ?thesis using True by simp
next
  case False
  then have e: "(2::real) powi k = inverse (2 ^ nat (- k))" by (simp add: two_powi_neg)
  have "(q \<le> p * 2 ^ nat (- k)) = (real_of_int q \<le> real_of_int (p * 2 ^ nat (- k)))"
    by (simp only: of_int_le_iff)
  then show ?thesis using False unfolding e by (simp add: field_simps)
qed

lemma binary_exponent_bounds:
  assumes "0 < p" "0 < q"
  shows "2 powi (binary_exponent p q) \<le> real_of_int p / real_of_int q"
    and "real_of_int p / real_of_int q < 2 powi (binary_exponent p q + 1)"
proof -
  define bp where "bp = int (bit_length (nat p))"
  define bq where "bq = int (bit_length (nat q))"
  define k where "k = bp - bq"
  have p1: "(2::real) powi (bp - 1) \<le> of_int p" and p2: "of_int p < (2::real) powi bp"
    using bit_length_real[OF assms(1)] by (simp_all add: bp_def)
  have q1: "(2::real) powi (bq - 1) \<le> of_int q" and q2: "of_int q < (2::real) powi bq"
    using bit_length_real[OF assms(2)] by (simp_all add: bq_def)
  have qpos: "0 < real_of_int q" using assms by simp
  have test: "(if 0 \<le> k then q * 2 ^ nat k \<le> p else q \<le> p * 2 ^ nat (- k))
          \<longleftrightarrow> real_of_int q * 2 powi k \<le> real_of_int p"
    by (rule binary_exponent_test[OF assms])
  have be: "binary_exponent p q = (if real_of_int q * 2 powi k \<le> real_of_int p then k else k - 1)"
    unfolding binary_exponent_def Let_def bp_def[symmetric] bq_def[symmetric] k_def[symmetric]
    using test by simp
  have up: "real_of_int p < real_of_int q * 2 powi (k + 1)"
  proof -
    have "(2::real) powi bp = 2 powi (bq - 1) * 2 powi (k + 1)"
      unfolding k_def by (simp add: two_powi_add[symmetric])
    also have "\<dots> \<le> real_of_int q * 2 powi (k + 1)"
      using q1 by (intro mult_right_mono) auto
    finally show ?thesis using p2 by linarith
  qed
  have low: "real_of_int q * 2 powi (k - 1) \<le> real_of_int p"
  proof -
    have "real_of_int q * 2 powi (k - 1) \<le> 2 powi bq * 2 powi (k - 1)"
      using q2 by (intro mult_right_mono) auto
    also have "\<dots> = 2 powi (bp - 1)"
      unfolding k_def by (simp add: two_powi_add[symmetric])
    finally show ?thesis using p1 by linarith
  qed
  show "2 powi (binary_exponent p q) \<le> real_of_int p / real_of_int q"
  proof (cases "real_of_int q * 2 powi k \<le> real_of_int p")
    case True
    then have "2 powi k \<le> real_of_int p / real_of_int q"
      using qpos by (simp add: pos_le_divide_eq mult.commute)
    then show ?thesis using True by (simp add: be)
  next
    case False
    have "2 powi (k - 1) \<le> real_of_int p / real_of_int q"
      using low qpos by (simp add: pos_le_divide_eq mult.commute)
    then show ?thesis using False by (simp add: be)
  qed
  show "real_of_int p / real_of_int q < 2 powi (binary_exponent p q + 1)"
  proof (cases "real_of_int q * 2 powi k \<le> real_of_int p")
    case True
    have "real_of_int p / real_of_int q < 2 powi (k + 1)"
      using up qpos by (simp add: pos_divide_less_eq mult.commute)
    then show ?thesis using True by (simp add: be)
  next
    case False
    then have "real_of_int p / real_of_int q < 2 powi k"
      using qpos by (simp add: pos_divide_less_eq mult.commute)
    then show ?thesis using False by (simp add: be)
  qed
qed

lemma round_half_even_error:
  assumes "0 < b"
  shows "\<bar>real_of_int (round_half_even a b) - real_of_int a / real_of_int b\<bar> \<le> 1 / 2"
proof -
  define f where "f = a div b"
  define r where "r = a mod b"
  have a: "a = f * b + r" by (simp add: f_def r_def)
  have r0: "0 \<le> r" and rb: "r < b" using assms by (simp_all add: r_def)
  have bpos: "0 < real_of_int b" using assms by simp
  have q: "real_of_int a / real_of_int b = real_of_int f + real_of_int r / real_of_int b"
    using bpos by (simp add: a field_simps)
  have cases: "round_half_even a b = f \<and> 2 * r \<le> b \<or> round_half_even a b = f + 1 \<and> b \<le> 2 * r"
    unfolding round_half_even_def Let_def f_def[symmetric] r_def[symmetric] by auto
  then show ?thesis
  proof
    assume h: "round_half_even a b = f \<and> 2 * r \<le> b"
    then have "2 * real_of_int r \<le> real_of_int b" by (metis of_int_le_iff of_int_mult of_int_numeral)
    then have "real_of_int r / real_of_int b \<le> 1 / 2" using bpos by (simp add: field_simps)
    moreover have "0 \<le> real_of_int r / real_of_int b" using r0 bpos by simp
    ultimately show ?thesis using h q by simp
  next
    assume h: "round_half_even a b = f + 1 \<and> b \<le> 2 * r"
    then have "real_of_int b \<le> 2 * real_of_int r" by (metis of_int_le_iff of_int_mult of_int_numeral)
    then have "1 / 2 \<le> real_of_int r / real_of_int b" using bpos by (simp add: field_simps)
    moreover have "real_of_int r / real_of_int b < 1" using rb bpos by simp
    ultimately show ?thesis using h q by simp
  qed
qed

lemma round53_scaled:
  assumes "0 < p" "0 < q"
  shows "\<bar>real_of_int (fst (round53 p q)) - (real_of_int p / real_of_int q) * 2 powi (52 - binary_exponent p q)\<bar> \<le> 1 / 2"
proof -
  define s where "s = 52 - binary_exponent p q"
  show ?thesis
  proof (cases "0 \<le> s")
    case True
    then have m: "fst (round53 p q) = round_half_even (p * 2 ^ nat s) q"
      by (simp add: round53_def Let_def s_def)
    have ps: "(2::real) powi s = 2 ^ nat s" using True by (rule two_powi_nonneg)
    have e: "real_of_int (p * 2 ^ nat s) / real_of_int q = (real_of_int p / real_of_int q) * 2 powi s"
      unfolding ps by simp
    from round_half_even_error[OF assms(2), of "p * 2 ^ nat s"] show ?thesis
      unfolding m s_def[symmetric] e .
  next
    case False
    then have m: "fst (round53 p q) = round_half_even p (q * 2 ^ nat (- s))"
      by (simp add: round53_def Let_def s_def)
    have ps: "(2::real) powi s = inverse (2 ^ nat (- s))" using False by (simp add: two_powi_neg)
    have e: "real_of_int p / real_of_int (q * 2 ^ nat (- s)) = (real_of_int p / real_of_int q) * 2 powi s"
      unfolding ps by (simp add: field_simps)
    have "0 < q * 2 ^ nat (- s)" using assms by simp
    from round_half_even_error[OF this, of p] show ?thesis
      unfolding m s_def[symmetric] e .
  qed
qed

lemma round53_error:
  assumes "0 < p" "0 < q"
  shows "\<bar>double_value (round53 p q) - real_of_int p / real_of_int q\<bar>
           \<le> (real_of_int p / real_of_int q) / 2 ^ 53"
proof -
  define x where "x = real_of_int p / real_of_int q"
  define e where "e = binary_exponent p q"
  define m where "m = real_of_int (fst (round53 p q))"
  have snd: "snd (round53 p q) = e - 52" by (simp add: round53_def Let_def e_def)
  have v: "double_value (round53 p q) = m * 2 powi (e - 52)"
    by (simp add: double_value_def snd m_def)
  have sc: "\<bar>m - x * 2 powi (52 - e)\<bar> \<le> 1 / 2"
    using round53_scaled[OF assms] by (simp add: m_def x_def e_def)
  have inv: "(2::real) powi (52 - e) * 2 powi (e - 52) = 1"
    by (simp add: two_powi_add[symmetric])
  have "m * 2 powi (e - 52) - x = (m - x * 2 powi (52 - e)) * 2 powi (e - 52)"
    using inv by (simp add: algebra_simps)
  then have "\<bar>m * 2 powi (e - 52) - x\<bar> = \<bar>m - x * 2 powi (52 - e)\<bar> * 2 powi (e - 52)"
    by (simp add: abs_mult)
  also have "\<dots> \<le> (1 / 2) * 2 powi (e - 52)"
    using sc by (intro mult_right_mono) auto
  also have "\<dots> = 2 powi e / 2 ^ 53"
  proof -
    have "(2::real) powi (e - 52) = 2 powi e * 2 powi (- 52)" 
      using two_powi_add[of e "- 52"] by simp
    then show ?thesis by (simp add: power_int_minus field_simps)
  qed
  also have "\<dots> \<le> x / 2 ^ 53"
    using binary_exponent_bounds(1)[OF assms] by (simp add: x_def e_def divide_right_mono)
  finally show ?thesis unfolding v x_def .
qed

lemma round53_snd: "snd (round53 p q) = binary_exponent p q - 52"
  by (simp add: round53_def Let_def)

lemma round53_positive:
  assumes "0 < p" "0 < q"
  shows "0 < fst (round53 p q)"
proof -
  define x where "x = real_of_int p / real_of_int q"
  define e where "e = binary_exponent p q"
  have "2 powi e * 2 powi (52 - e) \<le> x * 2 powi (52 - e)"
    using binary_exponent_bounds(1)[OF assms] by (intro mult_right_mono) (auto simp: x_def e_def)
  moreover have "(2::real) powi e * 2 powi (52 - e) = 2 ^ 52"
    by (simp add: two_powi_add[symmetric])
  ultimately have "(2::real) ^ 52 \<le> x * 2 powi (52 - e)" by simp
  moreover have "\<bar>real_of_int (fst (round53 p q)) - x * 2 powi (52 - e)\<bar> \<le> 1 / 2"
    using round53_scaled[OF assms] by (simp add: x_def e_def)
  moreover have "(1::real) \<le> 2 ^ 52" by simp
  ultimately have "0 < real_of_int (fst (round53 p q))" by linarith
  then show ?thesis by simp
qed

lemma py_truediv_positive:
  assumes "0 < a" "0 < b"
  shows "py_truediv a b = round53 a b"
  using assms by (simp add: py_truediv_def)

lemma py_mul_int_error:
  assumes "0 < a" "0 < fst d"
  shows "\<bar>double_value (py_mul_int a d) - real_of_int a * double_value d\<bar>
           \<le> real_of_int a * double_value d / 2 ^ 53"
    and "0 < fst (py_mul_int a d)"
proof -
  define n where "n = a * fst d"
  have n: "0 < n" using assms by (simp add: n_def)
  define r where "r = (if 0 \<le> snd d then round53 (n * 2 ^ nat (snd d)) 1
                        else round53 n (2 ^ nat (- snd d)))"
  have m: "py_mul_int a d = r"
    using n unfolding py_mul_int_def Let_def n_def[symmetric] r_def
    by (cases "r") (auto simp: prod_eq_iff)
  have exact: "real_of_int a * double_value d = real_of_int n * 2 powi (snd d)"
    by (simp add: double_value_def n_def)
  show "\<bar>double_value (py_mul_int a d) - real_of_int a * double_value d\<bar>
           \<le> real_of_int a * double_value d / 2 ^ 53"
  proof (cases "0 \<le> snd d")
    case True
    have p: "0 < n * 2 ^ nat (snd d)" using n by simp
    have one: "(0::int) < 1" by simp
    have r: "r = round53 (n * 2 ^ nat (snd d)) 1" using True by (simp add: r_def)
    have ps: "(2::real) powi (snd d) = 2 ^ nat (snd d)" using True by (rule two_powi_nonneg)
    have ex: "real_of_int (n * 2 ^ nat (snd d)) / real_of_int 1 = real_of_int n * 2 powi (snd d)"
      unfolding ps by simp
    show ?thesis unfolding m r exact using round53_error[OF p one, unfolded ex] .
  next
    case False
    have q: "(0::int) < 2 ^ nat (- snd d)" by simp
    have r: "r = round53 n (2 ^ nat (- snd d))" using False by (simp add: r_def)
    have ps: "(2::real) powi (snd d) = inverse (2 ^ nat (- snd d))"
      using False by (simp add: two_powi_neg)
    have ex: "real_of_int n / real_of_int (2 ^ nat (- snd d)) = real_of_int n * 2 powi (snd d)"
      unfolding ps by (simp add: field_simps)
    show ?thesis unfolding m r exact using round53_error[OF n q, unfolded ex] .
  qed
  show "0 < fst (py_mul_int a d)"
    unfolding m r_def using n by (auto intro: round53_positive)
qed

lemma py_int_floor:
  assumes "0 \<le> fst d"
  shows "py_int d = \<lfloor>double_value d\<rfloor>"
proof (cases "0 \<le> snd d")
  case True
  then have "double_value d = real_of_int (fst d * 2 ^ nat (snd d))"
    by (simp add: double_value_def two_powi_nonneg)
  then show ?thesis using True by (simp add: py_int_def del: of_int_mult of_int_power)
next
  case False
  have ps: "(2::real) powi (snd d) = inverse (2 ^ nat (- snd d))"
    using False by (simp add: two_powi_neg)
  have v: "double_value d = real_of_int (fst d) / real_of_int (2 ^ nat (- snd d))"
    unfolding double_value_def ps by (simp add: field_simps)
  have "\<lfloor>double_value d\<rfloor> = fst d div 2 ^ nat (- snd d)"
    unfolding v by (rule floor_divide_of_int_eq)
  moreover have "sgn (fst d) * (\<bar>fst d\<bar> div 2 ^ nat (- snd d)) = fst d div 2 ^ nat (- snd d)"
    using assms by (cases "fst d = 0") (auto simp: sgn_if)
  ultimately show ?thesis using False by (simp add: py_int_def)
qed

lemma float_scale_close:
  assumes "0 < h" "0 < w" "0 < W"
  shows "\<exists>P. float_scale h w W = \<lfloor>P\<rfloor> \<and>
           \<bar>P - real_of_int (h * w) / real_of_int W\<bar>
             \<le> (real_of_int (h * w) / real_of_int W) * (3 / 2 ^ 53)"
proof -
  define u :: real where "u = 1 / 2 ^ 53"
  define x where "x = real_of_int w / real_of_int W"
  define q where "q = double_value (py_truediv w W)"
  define P where "P = double_value (py_mul_int h (py_truediv w W))"
  have xpos: "0 < x" using assms by (simp add: x_def)
  have hpos: "0 < real_of_int h" using assms by simp
  have upos: "0 < u" "u \<le> 1" by (simp_all add: u_def)
  have t: "py_truediv w W = round53 w W" using assms by (simp add: py_truediv_positive)
  have mp: "0 < fst (py_truediv w W)" unfolding t using assms by (intro round53_positive)
  have eq: "\<bar>q - x\<bar> \<le> x * u"
    using round53_error[OF assms(2,3)] by (simp add: q_def x_def t u_def)
  have eP: "\<bar>P - real_of_int h * q\<bar> \<le> real_of_int h * q * u"
    using py_mul_int_error(1)[OF assms(1) mp] by (simp add: P_def q_def u_def)
  have q_le: "q \<le> x * (1 + u)" using eq by (simp add: algebra_simps abs_le_iff)
  have "\<bar>P - real_of_int h * x\<bar> \<le> \<bar>P - real_of_int h * q\<bar> + real_of_int h * \<bar>q - x\<bar>"
  proof -
    have "P - real_of_int h * x = (P - real_of_int h * q) + real_of_int h * (q - x)"
      by (simp add: algebra_simps)
    then have "\<bar>P - real_of_int h * x\<bar> \<le> \<bar>P - real_of_int h * q\<bar> + \<bar>real_of_int h * (q - x)\<bar>"
      by (metis abs_triangle_ineq)
    then show ?thesis using hpos by (simp add: abs_mult)
  qed
  also have "\<dots> \<le> real_of_int h * q * u + real_of_int h * (x * u)"
    using eP eq hpos by (intro add_mono mult_left_mono) auto
  also have "\<dots> \<le> real_of_int h * (x * (1 + u)) * u + real_of_int h * (x * u)"
    using q_le hpos upos by (intro add_mono mult_right_mono mult_left_mono) auto
  also have "\<dots> = real_of_int h * x * (u * (2 + u))" by (simp add: algebra_simps)
  also have "\<dots> \<le> real_of_int h * x * (3 * u)"
    using hpos xpos upos by (intro mult_left_mono) (auto simp: algebra_simps)
  finally have "\<bar>P - real_of_int h * x\<bar> \<le> real_of_int h * x * (3 * u)" .
  moreover have "real_of_int h * x = real_of_int (h * w) / real_of_int W" by (simp add: x_def)
  moreover have "0 \<le> fst (py_mul_int h (py_truediv w W))"
    using py_mul_int_error(2)[OF assms(1) mp] by simp
  then have "float_scale h w W = \<lfloor>P\<rfloor>" by (simp add: float_scale_def P_def py_int_floor)
  ultimately show ?thesis by (auto simp: u_def intro!: exI[of _ P])
qed

lemma float_scale_floor:
  assumes "0 < h" "0 < w" "0 < W" "h * w < 2 ^ 51"
  shows "float_scale h w W = h * w div W \<or>
         (W dvd h * w \<and> float_scale h w W = h * w div W - 1)"
proof -
  define N where "N = h * w"
  define k where "k = N div W"
  define r where "r = N mod W"
  obtain P where fl: "float_scale h w W = \<lfloor>P\<rfloor>"
    and err: "\<bar>P - real_of_int N / real_of_int W\<bar> \<le> (real_of_int N / real_of_int W) * (3 / 2 ^ 53)"
    using float_scale_close[OF assms(1-3)] unfolding N_def by blast
  have Wpos: "0 < real_of_int W" using assms by simp
  have Npos: "0 < N" using assms by (simp add: N_def)
  have "real_of_int N < 2 ^ 51" using assms(4) unfolding N_def[symmetric]
    by (metis of_int_less_iff of_int_numeral of_int_power)
  then have "real_of_int N * (3 / 2 ^ 53) < 1" by simp
  then have "(real_of_int N / real_of_int W) * (3 / 2 ^ 53) < 1 / real_of_int W"
    using Wpos by (simp add: field_simps)
  then have close: "\<bar>P - real_of_int N / real_of_int W\<bar> < 1 / real_of_int W"
    using err by linarith
  have N: "N = k * W + r" by (simp add: k_def r_def)
  have r0: "0 \<le> r" and rW: "r < W" using assms by (simp_all add: r_def)
  have X: "real_of_int N / real_of_int W = real_of_int k + real_of_int r / real_of_int W"
    using Wpos by (simp add: N field_simps)
  have d1: "(real_of_int r - 1) / real_of_int W = real_of_int r / real_of_int W - 1 / real_of_int W"
    by (simp add: diff_divide_distrib)
  have d2: "(real_of_int r + 1) / real_of_int W = real_of_int r / real_of_int W + 1 / real_of_int W"
    by (simp add: add_divide_distrib)
  have lo: "real_of_int k + (real_of_int r - 1) / real_of_int W < P"
    and hi: "P < real_of_int k + (real_of_int r + 1) / real_of_int W"
    using close unfolding X d1 d2 by linarith+
  show ?thesis
  proof (cases "r = 0")
    case False
    then have "1 \<le> r" "r + 1 \<le> W" using r0 rW by auto
    then have a: "0 \<le> (real_of_int r - 1) / real_of_int W"
      and b: "(real_of_int r + 1) / real_of_int W \<le> 1"
      using Wpos by (simp_all add: field_simps)
    have "real_of_int k \<le> P" "P < real_of_int k + 1" using lo hi a b by linarith+
    then have "\<lfloor>P\<rfloor> = k" by (simp add: floor_eq_iff)
    then show ?thesis by (simp add: fl k_def N_def)
  next
    case True
    have "1 \<le> W" using assms by simp
    then have "1 / real_of_int W \<le> 1" using Wpos by (simp add: field_simps)
    then have "real_of_int k - 1 < P" "P < real_of_int k + 1"
      using lo hi True by (simp_all add: field_simps)
    then have "real_of_int (k - 1) \<le> P \<and> P < real_of_int (k - 1) + 1 \<or>
               real_of_int k \<le> P \<and> P < real_of_int k + 1"
      by (cases "real_of_int k \<le> P") auto
    then have "\<lfloor>P\<rfloor> = k - 1 \<or> \<lfloor>P\<rfloor> = k" by (auto simp: floor_eq_iff)
    moreover have "W dvd N" using True by (simp add: r_def dvd_eq_mod_eq_0)
    ultimately show ?thesis by (auto simp: fl k_def N_def)
  qed
qed

lemma scaled_side:
  assumes "0 < h" "0 < w" "0 < W" "h * w < 2 ^ 51"
  shows "float_scale h w W = h * w div W
           \<or> W dvd h * w \<and> float_scale h w W = h * w div W - 1"
    and "\<bar>float_scale h w W * W - h * w\<bar> \<le> W"
proof -
  define N where "N = h * w"
  note fl = float_scale_floor[OF assms, unfolded N_def[symmetric]]
  show "float_scale h w W = h * w div W
           \<or> W dvd h * w \<and> float_scale h w W = h * w div W - 1"
    using fl by (simp add: N_def)
  have r: "0 \<le> N mod W" "N mod W < W" using assms by simp_all
  have dm: "N = N div W * W + N mod W" by simp
  from fl show "\<bar>float_scale h w W * W - h * w\<bar> \<le> W"
  proof
    assume "float_scale h w W = N div W"
    then have "float_scale h w W * W - N = - (N mod W)" using dm by (simp add: algebra_simps)
    then show ?thesis using r unfolding N_def[symmetric] by simp
  next
    assume a: "W dvd N \<and> float_scale h w W = N div W - 1"
    then have n: "N div W * W = N" by simp
    have "float_scale h w W * W = (N div W - 1) * W" using a by simp
    also have "\<dots> = N div W * W - W" by (simp add: algebra_simps)
    finally have "float_scale h w W * W - N = - W" using n by simp
    then show ?thesis using assms unfolding N_def[symmetric] by simp
  qed
qed

section \<open>Facts about the pipeline\<close>

lemmas eval_defs =
  apply_edits_def load_image_def read_file_def write_file_def exists_def
  name_of_def parent_def suffix_of_def stem_of_def rfind_dot_def lower_char_def RAW_EXTENSIONS_def
  joinpath_def is_absolute_def parts_def str_nat.simps digit_char_def
  reference_codec_def reference_decode_def sample_image_def
  apply_operation_def dict_get_def pil_rotate_def pil_rotate_exact_def pil_crop_def pil_resize_def
  c_int_def mirror_def flip_def
  rotate_op_def crop_op_def Let_def char_of_def

lemma while_exists_first:
  assumes "while_exists fs dir pre stem suf counter path = Some p"
  shows "(\<not> exists fs path \<and> p = path) \<or>
         (exists fs path \<and>
          (\<exists>k\<ge>counter. p = joinpath dir (pre @ stem @ suf @ ''_'' @ str_nat k @ ''.jpg'') \<and>
             (\<forall>j. counter \<le> j \<and> j < k \<longrightarrow>
                exists fs (joinpath dir (pre @ stem @ suf @ ''_'' @ str_nat j @ ''.jpg'')))))"
proof (rule while_exists.raw_induct[where P = "\<lambda>fs dir pre stem suf counter path p.
     (\<not> exists fs path \<and> p = path) \<or>
         (exists fs path \<and>
          (\<exists>k\<ge>counter. p = joinpath dir (pre @ stem @ suf @ ''_'' @ str_nat k @ ''.jpg'') \<and>
             (\<forall>j. counter \<le> j \<and> j < k \<longrightarrow>
                exists fs (joinpath dir (pre @ stem @ suf @ ''_'' @ str_nat j @ ''.jpg'')))))", OF _ assms])
  fix w fs dir pre stem suf counter path p
  assume IH: "\<And>fs dir pre stem suf counter path p. w fs dir pre stem suf counter path = Some p \<Longrightarrow>
     (\<not> exists fs path \<and> p = path) \<or>
         (exists fs path \<and>
          (\<exists>k\<ge>counter. p = joinpath dir (pre @ stem @ suf @ ''_'' @ str_nat k @ ''.jpg'') \<and>
             (\<forall>j. counter \<le> j \<and> j < k \<longrightarrow>
                exists fs (joinpath dir (pre @ stem @ suf @ ''_'' @ str_nat j @ ''.jpg'')))))"
    and body: "(if exists fs path
      then w fs dir pre stem suf (counter + 1)
            (joinpath dir (pre @ stem @ suf @ ''_'' @ str_nat counter @ ''.jpg''))
      else Some path) = Some p"
  let ?name = "\<lambda>k. joinpath dir (pre @ stem @ suf @ ''_'' @ str_nat k @ ''.jpg'')"
  show "(\<not> exists fs path \<and> p = path) \<or>
         (exists fs path \<and>
          (\<exists>k\<ge>counter. p = ?name k \<and> (\<forall>j. counter \<le> j \<and> j < k \<longrightarrow> exists fs (?name j))))"
  proof (cases "exists fs path")
    case False
    then show ?thesis using body by simp
  next
    case True
    then have rec: "w fs dir pre stem suf (counter + 1) (?name counter) = Some p" using body by simp
    from IH[OF rec] consider
        (now) "\<not> exists fs (?name counter)" "p = ?name counter"
      | (later) k where "exists fs (?name counter)" "k \<ge> counter + 1" "p = ?name k"
          "\<forall>j. counter + 1 \<le> j \<and> j < k \<longrightarrow> exists fs (?name j)"
      by blast
    then show ?thesis
    proof cases
      case now
      then show ?thesis using True by (intro disjI2 conjI exI[of _ counter]) auto
    next
      case later
      have "\<forall>j. counter \<le> j \<and> j < k \<longrightarrow> exists fs (?name j)"
      proof (intro allI impI)
        fix j assume "counter \<le> j \<and> j < k"
        then show "exists fs (?name j)" using later(1,4) by (cases "j = counter") auto
      qed
      then show ?thesis using True later by (intro disjI2 conjI exI[of _ k]) auto
    qed
  qed
qed

lemma apply_operations_append:
  "apply_operations c im (ops1 @ ops2) =
     (case apply_operations c im ops1 of
        Inl e \<Rightarrow> Inl e
      | Inr im' \<Rightarrow> apply_operations c im' ops2)"
  by (induction ops1 arbitrary: im) (auto split: sum.splits)

lemma apply_edits_ops_fail:
  "load_image c r fs src = Inr im \<Longrightarrow> apply_operations c im ops = Inl e \<Longrightarrow>
     apply_edits c r fs src ops pre suf = Some (Inl e, fs)"
  by (simp add: apply_edits_def)

lemma unknown_operation:
  assumes "dict_get op ''type'' PNone \<notin> {PStr ''rotate'', PStr ''crop'', PStr ''resize'', PStr ''flip''}"
  shows "apply_operation c im op = Inl (ValueError (''Unknown operation type: '' @ py_str (dict_get op ''type'' PNone)))"
  using assms by (simp add: apply_operation_def Let_def)


lemma dimensions_pil_resize:
  "1 \<le> w \<Longrightarrow> w < 2 ^ 31 \<Longrightarrow> 1 \<le> h \<Longrightarrow> h < 2 ^ 31 \<Longrightarrow> allocatable c (w, h) \<Longrightarrow>
     dimensions (pil_resize c im (w, h)) = Inr (w, h)"
  by (auto simp: pil_resize_def c_int_def)

lemma joinpath_single:
  assumes "CHR ''/'' \<notin> set s" "s \<noteq> []" "s \<noteq> ''.''"
  shows "joinpath dir s = dir @ [s]"
proof -
  have "\<not> is_absolute s" using assms by (cases s) (auto simp: is_absolute_def)
  moreover have "parts s = [s]" using assms by (simp add: parts_def split_slash_noslash)
  ultimately show ?thesis by (simp add: joinpath_def)
qed

text \<open>
  With no slash in the prefix, the suffix and the stem, a successful call writes into the
  parent directory of the source, under the plain or a numbered name.
\<close>

lemma output_in_parent_directory:
  assumes "CHR ''/'' \<notin> set pre" "CHR ''/'' \<notin> set suf" "CHR ''/'' \<notin> set (stem_of (name_of src))"
    and run: "apply_edits c r fs src ops pre suf = Some (Inr p, fs')"
  shows "parent p = parent src \<and>
         (p = parent src @ [pre @ stem_of (name_of src) @ suf @ ''.jpg''] \<or>
          (\<exists>k\<ge>1. p = parent src @ [pre @ stem_of (name_of src) @ suf @ ''_'' @ str_nat k @ ''.jpg'']))"
proof -
  let ?stem = "stem_of (name_of src)"
  have base: "joinpath (parent src) (pre @ ?stem @ suf @ ''.jpg'') = parent src @ [pre @ ?stem @ suf @ ''.jpg'']"
    using assms(1-3) by (intro joinpath_single) auto
  have num: "joinpath (parent src) (pre @ ?stem @ suf @ ''_'' @ str_nat k @ ''.jpg'')
      = parent src @ [pre @ ?stem @ suf @ ''_'' @ str_nat k @ ''.jpg'']" for k
    using assms(1-3) str_nat_noslash[of k] by (intro joinpath_single) auto
  from apply_edits_cases[OF run]
  have w: "while_exists fs (parent src) pre ?stem suf 1
              (joinpath (parent src) (pre @ ?stem @ suf @ ''.jpg'')) = Some p"
    by auto
  from while_exists_first[OF w]
  have "p = parent src @ [pre @ ?stem @ suf @ ''.jpg''] \<or>
          (\<exists>k\<ge>1. p = parent src @ [pre @ ?stem @ suf @ ''_'' @ str_nat k @ ''.jpg''])"
    unfolding base num by auto
  then show ?thesis by (auto simp: parent_def)
qed

text \<open>
  A second identical call, made after a successful one, returns another path, and the
  file the first call wrote keeps its content.
\<close>

lemma apply_edits_repeat_distinct:
  assumes first: "apply_edits c r fs src ops pre suf = Some (Inr p1, fs1)"
    and second: "apply_edits c r fs1 src ops pre suf = Some (Inr p2, fs2)"
  shows "p2 \<noteq> p1 \<and> read_file fs2 p1 = read_file fs1 p1 \<and> (\<exists>b. read_file fs1 p1 = Inr b)"
proof -
  from apply_edits_cases[OF first] obtain q im' where
    q: "walk fs [] p1 = Some q" "fs q = None" "fs1 = fs(q \<mapsto> File (encode_jpeg c im'))"
    by auto
  have le: "fs \<subseteq>\<^sub>m fs1" using q by (auto simp: map_le_def)
  have w1: "walk fs1 [] p1 = Some q" using map_le_walk[OF le q(1)] .
  then have ex: "exists fs1 p1" using q(3) by (simp add: exists_def)
  have rd: "read_file fs1 p1 = Inr (encode_jpeg c im')" using w1 q(3) by (simp add: read_file_def)
  from apply_edits_cases[OF second] have "\<not> exists fs1 p2" by auto
  then have ne: "p2 \<noteq> p1" using ex by auto
  have "fs1 \<subseteq>\<^sub>m fs2" using apply_edits_frame[OF second] by simp
  then have "read_file fs2 p1 = read_file fs1 p1" using rd map_le_read_file by fastforce
  then show ?thesis using ne rd by simp
qed

text \<open>
  A rotate operation with an integer \<open>angle\<close> calls Pillow's counter-clockwise rotation
  with \<open>- angle\<close> and \<open>expand=True\<close>. For an angle of 90, 180 or 270 degrees (modulo 360,
  and within the range that floating point holds exactly) Pillow transposes the image
  without resampling: the call succeeds, the result is \<open>H \<times> W\<close>, \<open>W \<times> H\<close> and
  \<open>H \<times> W\<close>, and every pixel of the source is on the new canvas, at the place a clockwise
  turn takes it to: for 90 degrees the pixel at \<open>(x, y)\<close> goes to \<open>(H - 1 - y, x)\<close>, so
  the top-left corner becomes the top-right one. For every other angle the canvas and the
  pixels come out of Pillow's floating-point trigonometry and resampling, which the
  model takes from the codec.
\<close>

lemma rotate_right_angles:
  assumes "dict_get op ''type'' PNone = PStr ''rotate''"
    and "dict_get op ''angle'' (PInt 0) = PInt a"
  shows "apply_operation c im op = pil_rotate c (- a) im
       \<and> (\<bar>a\<bar> \<le> 2 ^ 53 \<longrightarrow>
            apply_operation c im op = Inr (pil_rotate_exact c (- a) im)
          \<and> (a mod 360 = 90 \<longrightarrow>
               dimensions (apply_operation c im op) = Inr (height im, width im)
               \<and> (\<forall>x y. 0 \<le> x \<and> x < width im \<and> 0 \<le> y \<and> y < height im \<longrightarrow>
                     carries im (pil_rotate_exact c (- a) im) (x, y) (height im - 1 - y, x)))
          \<and> (a mod 360 = 180 \<longrightarrow>
               dimensions (apply_operation c im op) = Inr (width im, height im)
               \<and> (\<forall>x y. 0 \<le> x \<and> x < width im \<and> 0 \<le> y \<and> y < height im \<longrightarrow>
                     carries im (pil_rotate_exact c (- a) im) (x, y)
                       (width im - 1 - x, height im - 1 - y)))
          \<and> (a mod 360 = 270 \<longrightarrow>
               dimensions (apply_operation c im op) = Inr (height im, width im)
               \<and> (\<forall>x y. 0 \<le> x \<and> x < width im \<and> 0 \<le> y \<and> y < height im \<longrightarrow>
                     carries im (pil_rotate_exact c (- a) im) (x, y) (y, width im - 1 - x))))"
proof -
  have call: "apply_operation c im op = pil_rotate c (- a) im"
    using assms by (simp add: apply_operation_def Let_def)
  have r: "apply_operation c im op = Inr (pil_rotate_exact c (- a) im)" if "\<bar>a\<bar> \<le> 2 ^ 53"
    using that by (simp add: call pil_rotate_def)
  have m90: "(- a) mod 360 = 270" if "a mod 360 = 90"
    using that by (simp add: zmod_zminus1_eq_if)
  have m180: "(- a) mod 360 = 180" if "a mod 360 = 180"
    using that by (simp add: zmod_zminus1_eq_if)
  have m270: "(- a) mod 360 = 90" if "a mod 360 = 270"
    using that by (simp add: zmod_zminus1_eq_if)
  have p90: "pil_rotate_exact c (- a) im =
      \<lparr>width = height im, height = width im, pixel_at = \<lambda>x y. pixel_at im y (height im - 1 - x)\<rparr>"
    if "a mod 360 = 90"
    by (simp add: pil_rotate_exact_def m90[OF that])
  have p180: "pil_rotate_exact c (- a) im =
      im\<lparr>pixel_at := \<lambda>x y. pixel_at im (width im - 1 - x) (height im - 1 - y)\<rparr>"
    if "a mod 360 = 180"
    by (simp add: pil_rotate_exact_def m180[OF that])
  have p270: "pil_rotate_exact c (- a) im =
      \<lparr>width = height im, height = width im, pixel_at = \<lambda>x y. pixel_at im (width im - 1 - y) x\<rparr>"
    if "a mod 360 = 270"
    by (simp add: pil_rotate_exact_def m270[OF that])
  show ?thesis
  proof (intro conjI impI allI)
    show "apply_operation c im op = pil_rotate c (- a) im" by (rule call)
  next
    assume "\<bar>a\<bar> \<le> 2 ^ 53"
    then show "apply_operation c im op = Inr (pil_rotate_exact c (- a) im)" by (rule r)
  next
    assume b: "\<bar>a\<bar> \<le> 2 ^ 53" and h: "a mod 360 = 90"
    show "dimensions (apply_operation c im op) = Inr (height im, width im)"
      by (simp add: r[OF b] p90[OF h])
  next
    fix x y
    assume h: "a mod 360 = 90" and "0 \<le> x \<and> x < width im \<and> 0 \<le> y \<and> y < height im"
    then show "carries im (pil_rotate_exact c (- a) im) (x, y) (height im - 1 - y, x)"
      by (simp add: p90[OF h] carries_def)
  next
    assume b: "\<bar>a\<bar> \<le> 2 ^ 53" and h: "a mod 360 = 180"
    show "dimensions (apply_operation c im op) = Inr (width im, height im)"
      by (simp add: r[OF b] p180[OF h])
  next
    fix x y
    assume h: "a mod 360 = 180" and "0 \<le> x \<and> x < width im \<and> 0 \<le> y \<and> y < height im"
    then show "carries im (pil_rotate_exact c (- a) im) (x, y)
                 (width im - 1 - x, height im - 1 - y)"
      by (simp add: p180[OF h] carries_def)
  next
    assume b: "\<bar>a\<bar> \<le> 2 ^ 53" and h: "a mod 360 = 270"
    show "dimensions (apply_operation c im op) = Inr (height im, width im)"
      by (simp add: r[OF b] p270[OF h])
  next
    fix x y
    assume h: "a mod 360 = 270" and "0 \<le> x \<and> x < width im \<and> 0 \<le> y \<and> y < height im"
    then show "carries im (pil_rotate_exact c (- a) im) (x, y) (y, width im - 1 - x)"
      by (simp add: p270[OF h] carries_def)
  qed
qed

lemma rotate_right_angles_example:
  "dimensions (apply_operation reference_codec (sample_image 4000 3000) (rotate_op 90))
     = Inr (3000, 4000)
   \<and> dimensions (apply_operation reference_codec (sample_image 4000 3000) (rotate_op 180))
     = Inr (4000, 3000)
   \<and> dimensions (apply_operation reference_codec (sample_image 4000 3000) (rotate_op 270))
     = Inr (3000, 4000)
   \<and> carries (sample_image 4000 3000)
       (pil_rotate_exact reference_codec (- 90) (sample_image 4000 3000)) (0, 0) (2999, 0)"
proof -
  have ty: "dict_get (rotate_op a) ''type'' PNone = PStr ''rotate''"
    and an: "dict_get (rotate_op a) ''angle'' (PInt 0) = PInt a" for a
    by (simp_all add: rotate_op_def dict_get_def)
  note r90 = rotate_right_angles[where op = "rotate_op 90" and a = 90 and c = reference_codec
      and im = "sample_image 4000 3000", OF ty an, THEN conjunct2, rule_format]
  note r180 = rotate_right_angles[where op = "rotate_op 180" and a = 180 and c = reference_codec
      and im = "sample_image 4000 3000", OF ty an, THEN conjunct2, rule_format]
  note r270 = rotate_right_angles[where op = "rotate_op 270" and a = 270 and c = reference_codec
      and im = "sample_image 4000 3000", OF ty an, THEN conjunct2, rule_format]
  have b: "\<bar>90::int\<bar> \<le> 2 ^ 53" "\<bar>180::int\<bar> \<le> 2 ^ 53" "\<bar>270::int\<bar> \<le> 2 ^ 53"
    by simp_all
  have d90: "dimensions (apply_operation reference_codec (sample_image 4000 3000) (rotate_op 90))
     = Inr (3000, 4000)"
    using r90[OF b(1), THEN conjunct2, THEN conjunct1] by (simp add: sample_image_def)
  have d180: "dimensions (apply_operation reference_codec (sample_image 4000 3000) (rotate_op 180))
     = Inr (4000, 3000)"
    using r180[OF b(2), THEN conjunct2, THEN conjunct2, THEN conjunct1]
    by (simp add: sample_image_def)
  have d270: "dimensions (apply_operation reference_codec (sample_image 4000 3000) (rotate_op 270))
     = Inr (3000, 4000)"
    using r270[OF b(3), THEN conjunct2, THEN conjunct2, THEN conjunct2]
    by (simp add: sample_image_def)
  have "\<forall>x y. 0 \<le> x \<and> x < width (sample_image 4000 3000) \<and> 0 \<le> y \<and> y < height (sample_image 4000 3000)
          \<longrightarrow> carries (sample_image 4000 3000)
                (pil_rotate_exact reference_codec (- 90) (sample_image 4000 3000)) (x, y)
                (height (sample_image 4000 3000) - 1 - y, x)"
    using r90[OF b(1), THEN conjunct2, THEN conjunct1] by simp
  then have "carries (sample_image 4000 3000)
                (pil_rotate_exact reference_codec (- 90) (sample_image 4000 3000)) (0, 0)
                (height (sample_image 4000 3000) - 1 - 0, 0)"
    by (rule allE[where x = 0], elim allE[where x = 0]) (simp add: sample_image_def)
  then have c90: "carries (sample_image 4000 3000)
       (pil_rotate_exact reference_codec (- 90) (sample_image 4000 3000)) (0, 0) (2999, 0)"
    by (simp add: sample_image_def)
  from d90 d180 d270 c90 show ?thesis by blast
qed

section \<open>The sandbox claims\<close>

text \<open>
  C1, as the specification words it, fails: not every request that is not accepted is
  answered with \<open>PathOutsideRoot\<close>. On a relative path with a NUL byte the resolution of
  the candidate raises \<open>ValueError\<close> before the \<open>try\<close> is entered, and that exception,
  not a 403, is what the caller gets.
\<close>

theorem sandbox_nul_byte_counterexample:
  "get_safe_browse_path (os_resolve demo_links) [''mnt''] [CHR ''a'', CHR 0x00, CHR ''b'']
     = Inl (ValueError ''embedded null byte'')
   \<and> \<not> is_PathOutsideRoot (ValueError ''embedded null byte'')"
  by (simp add: browse_path_eq sandbox_steps_def parts_def os_resolve_def demo_links_def)

text \<open>
  C1, amended. For every root and every client-supplied relative path: if the resolution
  of the candidate (the root joined with the parsed relative path) raises, that exception
  escapes. If it returns, \<open>get_safe_browse_path\<close> returns the canonical candidate exactly
  when the canonical root is a prefix of it, component by component, that is, when the
  candidate is the root or lies below it; every other candidate, reached through \<open>..\<close>,
  through a symbolic link or otherwise, is answered with status 403, the outcome
  \<open>PathOutsideRoot\<close>. (If the resolution of the root raises, a \<open>ValueError\<close> is
  answered with 403 too and any other exception escapes.) So a path is returned if and
  only if the candidate resolves to it and it is the resolved root or below it.
\<close>

theorem sandbox_accept_iff:
  "get_safe_browse_path resolve broot rel =
     (case resolve (broot @ parts rel) of
        Inl e \<Rightarrow> Inl e
      | Inr candidate \<Rightarrow>
          (case resolve broot of
             Inl e \<Rightarrow>
               Inl (except_ValueError
                      (HTTPException 403 ''Access denied: path outside browse root'') e)
           | Inr canonical_root \<Rightarrow>
               if prefix canonical_root candidate then Inr candidate
               else Inl (HTTPException 403 ''Access denied: path outside browse root'')))
   \<and> is_PathOutsideRoot (HTTPException 403 ''Access denied: path outside browse root'')
   \<and> (\<forall>p. get_safe_browse_path resolve broot rel = Inr p \<longleftrightarrow>
          resolve (broot @ parts rel) = Inr p \<and> (\<exists>r. resolve broot = Inr r \<and> prefix r p))"
  by (simp add: browse_path_eq sandbox_steps_accepts) (simp add: sandbox_steps_def)

theorem sandbox_accept_iff_witness:
  "get_safe_browse_path (os_resolve demo_links) [''mnt''] ''photos/a/../b.jpg''
     = Inr [''mnt'', ''photos'', ''b.jpg'']
   \<and> get_safe_browse_path (os_resolve demo_links) [''mnt''] []  = Inr [''mnt'']
   \<and> get_safe_browse_path (os_resolve demo_links) [''mnt''] ''../../etc/passwd''
     = Inl (HTTPException 403 ''Access denied: path outside browse root'')
   \<and> get_safe_browse_path (os_resolve demo_links) [''mnt''] ''photos/out/passwd''
     = Inl (HTTPException 403 ''Access denied: path outside browse root'')
   \<and> get_safe_browse_path (os_resolve demo_links) [''mnt''] ''loop/x.jpg'' = Inl RuntimeError"
  by (simp add: sandbox_accept_iff parts_def os_resolve_def demo_links_def)

text \<open>
  C3. \<open>get_safe_gallery_path\<close> works in two phases: an empty gallery root is refused
  with \<open>GalleryNotSelected\<close> whatever the resolver would say (no path is resolved);
  otherwise the gallery root is resolved against the browse root, which is
  \<open>get_safe_browse_path\<close> and the resolver of the specification, and what that raises is
  passed on; then the requested path is resolved against the resulting gallery base by
  the same resolver, with its own message for the rejection. The call succeeds only if
  both phases do, and then \<open>get_safe_browse_path\<close> with the gallery base for its root
  accepts the requested path with the same result.
\<close>

theorem gallery_two_phase:
  "get_safe_gallery_path resolve broot rel groot =
     (if groot = [] then Inl (HTTPException 400 ''No gallery selected. Please select a folder first.'')
      else case sandbox_steps resolve (HTTPException 403 ''Access denied: path outside browse root'')
                  broot groot of
             Inl e \<Rightarrow> Inl e
           | Inr gallery_base \<Rightarrow>
               (case sandbox_steps resolve
                       (HTTPException 403 ''Access denied: path outside gallery root'')
                       gallery_base rel of
                  Inl e \<Rightarrow> Inl e
                | Inr full_path \<Rightarrow> Inr (full_path, gallery_base)))
   \<and> get_safe_browse_path resolve broot groot
       = sandbox_steps resolve (HTTPException 403 ''Access denied: path outside browse root'')
           broot groot
   \<and> (\<forall>full_path gallery_base.
         get_safe_gallery_path resolve broot rel groot = Inr (full_path, gallery_base) \<longrightarrow>
           groot \<noteq> [] \<and> get_safe_browse_path resolve broot groot = Inr gallery_base
           \<and> get_safe_browse_path resolve gallery_base rel = Inr full_path)
   \<and> (\<forall>resolve'. \<exists>e. get_safe_gallery_path resolve' broot rel [] = Inl e \<and> is_GalleryNotSelected e)"
proof (intro conjI allI impI)
  show "get_safe_gallery_path resolve broot rel groot =
     (if groot = [] then Inl (HTTPException 400 ''No gallery selected. Please select a folder first.'')
      else case sandbox_steps resolve (HTTPException 403 ''Access denied: path outside browse root'')
                  broot groot of
             Inl e \<Rightarrow> Inl e
           | Inr gallery_base \<Rightarrow>
               (case sandbox_steps resolve
                       (HTTPException 403 ''Access denied: path outside gallery root'')
                       gallery_base rel of
                  Inl e \<Rightarrow> Inl e
                | Inr full_path \<Rightarrow> Inr (full_path, gallery_base)))"
    by (rule gallery_eq)
next
  show "get_safe_browse_path resolve broot groot
       = sandbox_steps resolve (HTTPException 403 ''Access denied: path outside browse root'')
           broot groot"
    by (rule browse_path_eq)
next
  fix full_path gallery_base
  assume a: "get_safe_gallery_path resolve broot rel groot = Inr (full_path, gallery_base)"
  show "groot \<noteq> []" using a by (auto simp: gallery_eq)
  show "get_safe_browse_path resolve broot groot = Inr gallery_base"
    using a by (simp add: gallery_eq browse_path_eq split: if_splits sum.splits)
  have "sandbox_steps resolve (HTTPException 403 ''Access denied: path outside gallery root'')
          gallery_base rel = Inr full_path"
    using a by (simp add: gallery_eq split: if_splits sum.splits)
  then show "get_safe_browse_path resolve gallery_base rel = Inr full_path"
    by (simp add: browse_path_eq sandbox_steps_accepts)
next
  fix resolve'
  show "\<exists>e. get_safe_gallery_path resolve' broot rel [] = Inl e \<and> is_GalleryNotSelected e"
    by (simp add: gallery_eq)
qed

theorem gallery_two_phase_witness:
  "get_safe_gallery_path (os_resolve demo_links) [''mnt''] ''a/../x.jpg'' ''photos''
     = Inr ([''mnt'', ''photos'', ''x.jpg''], [''mnt'', ''photos''])
   \<and> get_safe_gallery_path (os_resolve demo_links) [''mnt''] ''../x.jpg'' ''photos''
     = Inl (HTTPException 403 ''Access denied: path outside gallery root'')
   \<and> get_safe_gallery_path (os_resolve demo_links) [''mnt''] ''x.jpg'' ''photos/out''
     = Inl (HTTPException 403 ''Access denied: path outside browse root'')
   \<and> get_safe_gallery_path (os_resolve demo_links) [''mnt''] [CHR ''a'', CHR 0x00, CHR ''b'']
        ''photos''
     = Inl (ValueError ''embedded null byte'')
   \<and> get_safe_gallery_path (os_resolve demo_links) [''mnt''] ''x.jpg'' []
     = Inl (HTTPException 400 ''No gallery selected. Please select a folder first.'')"
  using
    conjunct1[OF gallery_two_phase[of "os_resolve demo_links" "[''mnt'']" "''a/../x.jpg''" "''photos''"]]
    conjunct1[OF gallery_two_phase[of "os_resolve demo_links" "[''mnt'']" "''../x.jpg''" "''photos''"]]
    conjunct1[OF gallery_two_phase[of "os_resolve demo_links" "[''mnt'']" "''x.jpg''" "''photos/out''"]]
    conjunct1[OF gallery_two_phase[of "os_resolve demo_links" "[''mnt'']"
        "[CHR ''a'', CHR 0x00, CHR ''b'']" "''photos''"]]
    conjunct1[OF gallery_two_phase[of "os_resolve demo_links" "[''mnt'']" "''x.jpg''" "[]"]]
  by (simp add: sandbox_steps_def parts_def os_resolve_def demo_links_def)

section \<open>The pipeline claims\<close>

text \<open>
  C2. Whatever the source path and the operation list, and whether the call succeeds or
  fails: when \<open>apply_edits\<close> returns, every entry of the file system that existed before is
  still there with the same content, and reading the source gives the same bytes (or the
  same error) as before. With finitely many entries in the file system the call does
  return.
\<close>

theorem apply_edits_source_untouched:
  "(\<forall>res fs'. apply_edits c r fs src ops pre suf = Some (res, fs') \<longrightarrow>
       read_file fs' src = read_file fs src \<and> fs \<subseteq>\<^sub>m fs')
   \<and> (finite (dom fs) \<longrightarrow> (\<exists>res fs'. apply_edits c r fs src ops pre suf = Some (res, fs')))"
  using apply_edits_frame[of c r fs src ops pre suf] apply_edits_total[of fs c r src ops pre suf]
  by blast

theorem apply_edits_source_untouched_witness:
  "finite (dom demo_fs)
   \<and> (\<exists>res fs'. apply_edits reference_codec True demo_fs [''mnt'', ''g'', ''photo.jpg'']
                   [rotate_op 90, crop_op 0 0 3000 2000] [] ''_edited'' = Some (res, fs')
        \<and> read_file fs' [''mnt'', ''g'', ''photo.jpg''] = Inr [CHR 0x28, CHR 0x1E]
        \<and> demo_fs \<subseteq>\<^sub>m fs')"
proof -
  have fin: "finite (dom demo_fs)" by (simp add: demo_fs_def)
  have rd: "read_file demo_fs [''mnt'', ''g'', ''photo.jpg''] = Inr [CHR 0x28, CHR 0x1E]"
    by (simp add: read_file_def demo_fs_def)
  from apply_edits_source_untouched[of reference_codec True demo_fs "[''mnt'', ''g'', ''photo.jpg'']"
      "[rotate_op 90, crop_op 0 0 3000 2000]" "[]" "''_edited''"] fin rd
  show ?thesis by auto
qed


text \<open>
  C5. The operations are applied in list order, each to the image the previous ones
  produced: the empty list returns the image as it is; a list is its first operation
  applied to the image, then the rest of the list applied to exactly the image that
  operation returned; a list extended by one operation is that operation applied to
  exactly the image the list returned; running a list is running its front part and then
  the rest on the result; and a failure of operation \<open>k\<close> after a successful front part is
  the failure of the whole list. An operation whose \<open>type\<close> is none of rotate, crop,
  resize, flip raises \<open>ValueError\<close>. When the operation list fails, \<open>apply_edits\<close> raises
  that error and leaves the file system as it was; the file system changes only when
  loading and the whole list have succeeded, and then by one file that did not exist and
  now holds the encoded final image.
\<close>

theorem operations_in_order_all_or_nothing:
  "apply_operations c im [] = Inr im
   \<and> apply_operations c im (op # ops2) =
       (case apply_operation c im op of
          Inl e \<Rightarrow> Inl e
        | Inr im1 \<Rightarrow> apply_operations c im1 ops2)
   \<and> apply_operations c im (ops1 @ [op]) =
       (case apply_operations c im ops1 of
          Inl e \<Rightarrow> Inl e
        | Inr im1 \<Rightarrow> apply_operation c im1 op)
   \<and> apply_operations c im (ops1 @ ops2) =
       (case apply_operations c im ops1 of
          Inl e \<Rightarrow> Inl e
        | Inr im' \<Rightarrow> apply_operations c im' ops2)
   \<and> (dict_get op ''type'' PNone \<notin> {PStr ''rotate'', PStr ''crop'', PStr ''resize'', PStr ''flip''}
        \<longrightarrow> apply_operation c im op
              = Inl (ValueError (''Unknown operation type: '' @ py_str (dict_get op ''type'' PNone))))
   \<and> (\<forall>im1 e. apply_operations c im ops1 = Inr im1 \<and> apply_operation c im1 op = Inl e
        \<longrightarrow> apply_operations c im (ops1 @ op # ops2) = Inl e)
   \<and> (\<forall>e. load_image c r fs src = Inr im \<and> apply_operations c im ops = Inl e
        \<longrightarrow> apply_edits c r fs src ops pre suf = Some (Inl e, fs))
   \<and> (\<forall>res fs'. apply_edits c r fs src ops pre suf = Some (res, fs') \<and> fs' \<noteq> fs
        \<longrightarrow> (\<exists>im0 im' p. load_image c r fs src = Inr im0 \<and> apply_operations c im0 ops = Inr im'
                \<and> res = Inr p \<and> \<not> exists fs p \<and> read_file fs' p = Inr (encode_jpeg c im')))"
proof (intro conjI allI impI)
  show "apply_operations c im [] = Inr im" by simp
next
  show "apply_operations c im (op # ops2) =
       (case apply_operation c im op of
          Inl e \<Rightarrow> Inl e
        | Inr im1 \<Rightarrow> apply_operations c im1 ops2)"
    by simp
next
  show "apply_operations c im (ops1 @ [op]) =
       (case apply_operations c im ops1 of
          Inl e \<Rightarrow> Inl e
        | Inr im1 \<Rightarrow> apply_operation c im1 op)"
    by (simp add: apply_operations_append split: sum.splits)
next
  show "apply_operations c im (ops1 @ ops2) =
     (case apply_operations c im ops1 of
        Inl e \<Rightarrow> Inl e
      | Inr im' \<Rightarrow> apply_operations c im' ops2)"
    by (rule apply_operations_append)
next
  assume "dict_get op ''type'' PNone \<notin> {PStr ''rotate'', PStr ''crop'', PStr ''resize'', PStr ''flip''}"
  then show "apply_operation c im op
              = Inl (ValueError (''Unknown operation type: '' @ py_str (dict_get op ''type'' PNone)))"
    by (rule unknown_operation)
next
  fix im1 e
  assume "apply_operations c im ops1 = Inr im1 \<and> apply_operation c im1 op = Inl e"
  then show "apply_operations c im (ops1 @ op # ops2) = Inl e"
    by (simp add: apply_operations_append)
next
  fix e
  assume "load_image c r fs src = Inr im \<and> apply_operations c im ops = Inl e"
  then show "apply_edits c r fs src ops pre suf = Some (Inl e, fs)"
    by (simp add: apply_edits_ops_fail)
next
  fix res fs'
  assume a: "apply_edits c r fs src ops pre suf = Some (res, fs') \<and> fs' \<noteq> fs"
  with apply_edits_cases[of c r fs src ops pre suf res fs']
  obtain im0 im' p q where s: "load_image c r fs src = Inr im0" "apply_operations c im0 ops = Inr im'"
     "\<not> exists fs p" "walk fs [] p = Some q" "fs q = None" "res = Inr p"
     "fs' = fs(q \<mapsto> File (encode_jpeg c im'))"
    by auto
  have le: "fs \<subseteq>\<^sub>m fs'" using s(5,7) by (auto simp: map_le_def)
  have "walk fs' [] p = Some q" using map_le_walk[OF le s(4)] .
  then have "read_file fs' p = Inr (encode_jpeg c im')" using s(7) by (simp add: read_file_def)
  then show "\<exists>im0 im' p. load_image c r fs src = Inr im0 \<and> apply_operations c im0 ops = Inr im'
                \<and> res = Inr p \<and> \<not> exists fs p \<and> read_file fs' p = Inr (encode_jpeg c im')"
    using s by blast
qed

theorem operations_in_order_all_or_nothing_witness:
  "apply_operations reference_codec (sample_image 4000 3000) [] = Inr (sample_image 4000 3000)
   \<and> pixel_of (apply_operations reference_codec (sample_image 4000 3000)
                 ([rotate_op 90] @ [crop_from 1000 500])) (0, 0) = Inr (500, 1999, 0)
   \<and> dimensions (apply_operations reference_codec (sample_image 4000 3000)
                 ([rotate_op 90] @ [crop_from 1000 500])) = Inr (2000, 3500)
   \<and> dimensions (apply_operations reference_codec (sample_image 4000 3000)
                 ([rotate_op 90] @ [crop_op 0 0 3000 4000])) = Inr (3000, 4000)
   \<and> dimensions (apply_operations reference_codec (sample_image 4000 3000)
                 ([crop_op 0 0 3000 4000] @ [rotate_op 90]))
       = Inl (ValueError ''Crop extends beyond image bounds'')
   \<and> apply_edits reference_codec True demo_fs [''mnt'', ''g'', ''photo.jpg'']
         [rotate_op 90, blur_op] [] ''_edited''
       = Some (Inl (ValueError ''Unknown operation type: blur''), demo_fs)"
proof -
  note thm1 = operations_in_order_all_or_nothing[where c = reference_codec
      and im = "sample_image 4000 3000" and op = blur_op and ?ops1.0 = "[rotate_op 90]"
      and ?ops2.0 = "[crop_op 0 0 3000 4000]" and r = True and fs = demo_fs
      and src = "[''mnt'', ''g'', ''photo.jpg'']" and ops = "[rotate_op 90, blur_op]"
      and pre = "[]" and suf = "''_edited''"]
  note thm2 = operations_in_order_all_or_nothing[where c = reference_codec
      and im = "sample_image 4000 3000" and ?ops1.0 = "[crop_op 0 0 3000 4000]"
      and ?ops2.0 = "[rotate_op 90]"]
  note thm3 = operations_in_order_all_or_nothing[where c = reference_codec
      and im = "sample_image 4000 3000" and op = "crop_from 1000 500"
      and ?ops1.0 = "[rotate_op 90]"]
  note app1 = thm1[THEN conjunct2, THEN conjunct2, THEN conjunct2, THEN conjunct1]
  note app2 = thm2[THEN conjunct2, THEN conjunct2, THEN conjunct2, THEN conjunct1]
  note snoc3 = thm3[THEN conjunct2, THEN conjunct2, THEN conjunct1]
  have z: "apply_operations reference_codec (sample_image 4000 3000) [] = Inr (sample_image 4000 3000)"
    by (rule thm1[THEN conjunct1])
  have r: "apply_operations reference_codec (sample_image 4000 3000) [rotate_op 90]
             = Inr \<lparr>width = 3000, height = 4000,
                    pixel_at = \<lambda>x y. pixel_at (sample_image 4000 3000) y (2999 - x)\<rparr>"
    by (simp add: eval_defs)
  have p: "pixel_of (apply_operations reference_codec (sample_image 4000 3000)
                 ([rotate_op 90] @ [crop_from 1000 500])) (0, 0) = Inr (500, 1999, 0)"
    by (subst snoc3) (simp add: r, simp add: eval_defs crop_from_def)
  have d: "dimensions (apply_operations reference_codec (sample_image 4000 3000)
                 ([rotate_op 90] @ [crop_from 1000 500])) = Inr (2000, 3500)"
    by (subst snoc3) (simp add: r, simp add: eval_defs crop_from_def)
  have a: "dimensions (apply_operations reference_codec (sample_image 4000 3000)
                 ([rotate_op 90] @ [crop_op 0 0 3000 4000])) = Inr (3000, 4000)"
    by (subst app1) (simp add: eval_defs)
  have b: "dimensions (apply_operations reference_codec (sample_image 4000 3000)
                 ([crop_op 0 0 3000 4000] @ [rotate_op 90]))
       = Inl (ValueError ''Crop extends beyond image bounds'')"
    by (subst app2) (simp add: eval_defs)
  have l: "load_image reference_codec True demo_fs [''mnt'', ''g'', ''photo.jpg''] = Inr (sample_image 4000 3000)"
    by (simp add: eval_defs demo_fs_def)
  have o: "apply_operations reference_codec (sample_image 4000 3000) [rotate_op 90, blur_op]
       = Inl (ValueError ''Unknown operation type: blur'')"
    by (simp add: eval_defs blur_op_def)
  have c: "apply_edits reference_codec True demo_fs [''mnt'', ''g'', ''photo.jpg'']
         [rotate_op 90, blur_op] [] ''_edited''
       = Some (Inl (ValueError ''Unknown operation type: blur''), demo_fs)"
    using thm1 l o by blast
  from z p d a b c show ?thesis by blast
qed



text \<open>
  C7, as the specification words it, fails: a resize with both \<open>width\<close> and \<open>height\<close>
  given does not fit the image into the box keeping its aspect ratio. A \<open>400 \<times> 200\<close>
  image resized with width 100 and height 100 comes out \<open>100 \<times> 100\<close>.
\<close>

theorem resize_both_given_counterexample:
  "dimensions (apply_operation reference_codec (sample_image 400 200) (resize_op 100 100))
     = Inr (100, 100)
   \<and> \<not> fits_preserving_aspect (400, 200) (100, 100) (100, 100)"
  by (simp add: apply_operation_def dict_get_def resize_op_def pil_resize_def c_int_def
        sample_image_def reference_codec_def fits_preserving_aspect_def)

text \<open>
  C7, amended. In the edit pipeline a resize with both \<open>width\<close> and \<open>height\<close> given
  (non-zero integers) is Pillow's \<open>resize\<close> to exactly that size, whatever the aspect
  ratio of the image: the result is \<open>width \<times> height\<close> when both are at least 1 and below
  \<open>2 ^ 31\<close> and the image can be allocated. With only \<open>width\<close> given (the other absent,
  \<open>None\<close>, 0 or the empty string) the other side is \<open>int(H * (width / W))\<close> in double
  precision; for a \<open>W \<times> H\<close> image and a positive \<open>width\<close> with \<open>H * width < 2 ^ 51\<close>
  that is the whole part of \<open>H * width / W\<close>, or one less than it when the quotient is a
  whole number, so it keeps the aspect ratio to within one pixel, and the result has
  exactly the size \<open>width\<close> by that side (under the same limits). With only \<open>height\<close>
  given the same holds with the sides exchanged.
\<close>

theorem resize_dimensions:
  assumes "dict_get op ''type'' PNone = PStr ''resize''"
  shows "(dict_get op ''width'' PNone = PInt w \<and> dict_get op ''height'' PNone = PInt h
            \<and> w \<noteq> 0 \<and> h \<noteq> 0
          \<longrightarrow> apply_operation c im op = pil_resize c im (w, h)
              \<and> (1 \<le> w \<and> w < 2 ^ 31 \<and> 1 \<le> h \<and> h < 2 ^ 31 \<and> allocatable c (w, h)
                  \<longrightarrow> dimensions (apply_operation c im op) = Inr (w, h)))
       \<and> (dict_get op ''width'' PNone = PInt w \<and> w \<noteq> 0
            \<and> \<not> truthy (dict_get op ''height'' PNone) \<and> width im \<noteq> 0
          \<longrightarrow> (let d = float_scale (height im) w (width im)
               in apply_operation c im op = pil_resize c im (w, d)
                  \<and> (0 < w \<and> 0 < width im \<and> width im < 2 ^ 31 \<and> 0 < height im
                        \<and> height im * w < 2 ^ 51
                      \<longrightarrow> (d = height im * w div width im
                           \<or> width im dvd height im * w \<and> d = height im * w div width im - 1)
                          \<and> \<bar>d * width im - height im * w\<bar> \<le> width im)
                  \<and> (1 \<le> w \<and> w < 2 ^ 31 \<and> 1 \<le> d \<and> d < 2 ^ 31 \<and> allocatable c (w, d)
                      \<longrightarrow> dimensions (apply_operation c im op) = Inr (w, d))))
       \<and> (dict_get op ''height'' PNone = PInt h \<and> h \<noteq> 0
            \<and> \<not> truthy (dict_get op ''width'' PNone) \<and> height im \<noteq> 0
          \<longrightarrow> (let d = float_scale (width im) h (height im)
               in apply_operation c im op = pil_resize c im (d, h)
                  \<and> (0 < h \<and> 0 < height im \<and> height im < 2 ^ 31 \<and> 0 < width im
                        \<and> width im * h < 2 ^ 51
                      \<longrightarrow> (d = width im * h div height im
                           \<or> height im dvd width im * h \<and> d = width im * h div height im - 1)
                          \<and> \<bar>d * height im - width im * h\<bar> \<le> height im)
                  \<and> (1 \<le> h \<and> h < 2 ^ 31 \<and> 1 \<le> d \<and> d < 2 ^ 31 \<and> allocatable c (d, h)
                      \<longrightarrow> dimensions (apply_operation c im op) = Inr (d, h))))"
proof (rule conjI[OF _ conjI]; rule impI)
  assume "dict_get op ''width'' PNone = PInt w \<and> dict_get op ''height'' PNone = PInt h
            \<and> w \<noteq> 0 \<and> h \<noteq> 0"
  then have e: "apply_operation c im op = pil_resize c im (w, h)"
    using assms by (simp add: apply_operation_def Let_def)
  show "apply_operation c im op = pil_resize c im (w, h)
              \<and> (1 \<le> w \<and> w < 2 ^ 31 \<and> 1 \<le> h \<and> h < 2 ^ 31 \<and> allocatable c (w, h)
                  \<longrightarrow> dimensions (apply_operation c im op) = Inr (w, h))"
    unfolding e by (simp add: dimensions_pil_resize)
next
  assume a: "dict_get op ''width'' PNone = PInt w \<and> w \<noteq> 0
            \<and> \<not> truthy (dict_get op ''height'' PNone) \<and> width im \<noteq> 0"
  define d where "d = float_scale (height im) w (width im)"
  have e: "apply_operation c im op = pil_resize c im (w, d)"
    using assms a by (simp add: apply_operation_def Let_def d_def)
  have s: "(d = height im * w div width im
             \<or> width im dvd height im * w \<and> d = height im * w div width im - 1)
           \<and> \<bar>d * width im - height im * w\<bar> \<le> width im"
    if "0 < w \<and> 0 < width im \<and> width im < 2 ^ 31 \<and> 0 < height im \<and> height im * w < 2 ^ 51"
    using that scaled_side[of "height im" w "width im"] by (simp add: d_def)
  show "let d = float_scale (height im) w (width im)
        in apply_operation c im op = pil_resize c im (w, d)
           \<and> (0 < w \<and> 0 < width im \<and> width im < 2 ^ 31 \<and> 0 < height im
                 \<and> height im * w < 2 ^ 51
               \<longrightarrow> (d = height im * w div width im
                    \<or> width im dvd height im * w \<and> d = height im * w div width im - 1)
                   \<and> \<bar>d * width im - height im * w\<bar> \<le> width im)
           \<and> (1 \<le> w \<and> w < 2 ^ 31 \<and> 1 \<le> d \<and> d < 2 ^ 31 \<and> allocatable c (w, d)
               \<longrightarrow> dimensions (apply_operation c im op) = Inr (w, d))"
    unfolding Let_def d_def[symmetric] e using s by (simp add: dimensions_pil_resize)
next
  assume a: "dict_get op ''height'' PNone = PInt h \<and> h \<noteq> 0
            \<and> \<not> truthy (dict_get op ''width'' PNone) \<and> height im \<noteq> 0"
  define d where "d = float_scale (width im) h (height im)"
  have e: "apply_operation c im op = pil_resize c im (d, h)"
    using assms a by (simp add: apply_operation_def Let_def d_def)
  have s: "(d = width im * h div height im
             \<or> height im dvd width im * h \<and> d = width im * h div height im - 1)
           \<and> \<bar>d * height im - width im * h\<bar> \<le> height im"
    if "0 < h \<and> 0 < height im \<and> height im < 2 ^ 31 \<and> 0 < width im \<and> width im * h < 2 ^ 51"
    using that scaled_side[of "width im" h "height im"] by (simp add: d_def)
  show "let d = float_scale (width im) h (height im)
        in apply_operation c im op = pil_resize c im (d, h)
           \<and> (0 < h \<and> 0 < height im \<and> height im < 2 ^ 31 \<and> 0 < width im
                 \<and> width im * h < 2 ^ 51
               \<longrightarrow> (d = width im * h div height im
                    \<or> height im dvd width im * h \<and> d = width im * h div height im - 1)
                   \<and> \<bar>d * height im - width im * h\<bar> \<le> height im)
           \<and> (1 \<le> h \<and> h < 2 ^ 31 \<and> 1 \<le> d \<and> d < 2 ^ 31 \<and> allocatable c (d, h)
               \<longrightarrow> dimensions (apply_operation c im op) = Inr (d, h))"
    unfolding Let_def d_def[symmetric] e using s by (simp add: dimensions_pil_resize)
qed

theorem resize_dimensions_witness:
  "dimensions (apply_operation reference_codec (sample_image 400 200) (resize_op 100 100))
     = Inr (100, 100)
   \<and> dimensions (apply_operation reference_codec (sample_image 400 200) (resize_width_op 100))
     = Inr (100, 50)
   \<and> float_scale 15 49 3 = 15 * 49 div 3 - 1
   \<and> dimensions (apply_operation reference_codec (sample_image 3 15) (resize_width_op 49))
     = Inr (49, 244)"
proof -
  have ty: "dict_get (resize_op w h) ''type'' PNone = PStr ''resize''"
    "dict_get (resize_width_op w) ''type'' PNone = PStr ''resize''" for w h
    by (simp_all add: resize_op_def resize_width_op_def dict_get_def)
  have f1: "float_scale 200 100 400 = 50" by (simp add: float_defs)
  have f2: "float_scale 15 49 3 = 244" by (simp add: float_defs)
  have a: "dimensions (apply_operation reference_codec (sample_image 400 200) (resize_op 100 100))
     = Inr (100, 100)"
    using resize_dimensions[OF ty(1), of 100 100 100 100 reference_codec "sample_image 400 200",
        THEN conjunct1]
    by (auto simp: resize_op_def dict_get_def reference_codec_def)
  have b: "dimensions (apply_operation reference_codec (sample_image 400 200) (resize_width_op 100))
     = Inr (100, 50)"
    using resize_dimensions[OF ty(2), of 100 100 0 reference_codec "sample_image 400 200",
        THEN conjunct2, THEN conjunct1]
    by (auto simp: resize_width_op_def dict_get_def reference_codec_def sample_image_def f1)
  have c: "dimensions (apply_operation reference_codec (sample_image 3 15) (resize_width_op 49))
     = Inr (49, 244)"
    using resize_dimensions[OF ty(2), of 49 49 0 reference_codec "sample_image 3 15",
        THEN conjunct2, THEN conjunct1]
    by (auto simp: resize_width_op_def dict_get_def reference_codec_def sample_image_def f2)
  from a b c f2 show ?thesis by simp
qed

text \<open>
  C9. In a file system with finitely many entries the loop over the candidate names
  ends: it returns a path that does not exist, which is the path it was entered with if
  that one is free, and otherwise the numbered name of the first counter, counting up
  from the one it was entered with, whose name is free.
\<close>

theorem output_name_loop_terminates:
  assumes "finite (dom fs)"
  shows "\<exists>p. while_exists fs dir pre stem suf counter path = Some p \<and> \<not> exists fs p \<and>
           (if \<not> exists fs path then p = path
            else \<exists>k\<ge>counter. p = joinpath dir (pre @ stem @ suf @ ''_'' @ str_nat k @ ''.jpg'') \<and>
                   (\<forall>j. counter \<le> j \<and> j < k \<longrightarrow>
                      exists fs (joinpath dir (pre @ stem @ suf @ ''_'' @ str_nat j @ ''.jpg''))))"
proof -
  obtain p where p: "while_exists fs dir pre stem suf counter path = Some p" "\<not> exists fs p"
    using while_exists_terminates[OF assms] by blast
  from while_exists_first[OF p(1)] p show ?thesis by auto
qed

theorem output_name_loop_terminates_witness:
  "finite (dom cluttered_fs)
   \<and> (\<exists>p. while_exists cluttered_fs [''mnt'', ''g''] [] ''photo'' ''_edited'' 1
             [''mnt'', ''g'', ''photo_edited.jpg''] = Some p
          \<and> \<not> exists cluttered_fs p
          \<and> p = [''mnt'', ''g'', ''photo_edited_2.jpg''])"
proof -
  have fin: "finite (dom cluttered_fs)" by (simp add: cluttered_fs_def demo_fs_def)
  have ev: "while_exists cluttered_fs [''mnt'', ''g''] [] ''photo'' ''_edited'' 1
       [''mnt'', ''g'', ''photo_edited.jpg''] = Some [''mnt'', ''g'', ''photo_edited_2.jpg'']"
    by (simp add: while_exists.simps exists_def cluttered_fs_def demo_fs_def
         joinpath_def is_absolute_def parts_def str_nat.simps digit_char_def)
  from output_name_loop_terminates[OF fin, of "[''mnt'', ''g'']" "[]" "''photo''" "''_edited''" 1
      "[''mnt'', ''g'', ''photo_edited.jpg'']"] fin ev
  show ?thesis by auto
qed

text \<open>
  C10. A flip without \<open>direction\<close> is not an error: it is the horizontal flip, Pillow's
  \<open>mirror\<close>, which keeps the size and takes the pixel at \<open>(x, y)\<close> to \<open>(W - 1 - x, y)\<close>.
  \<open>direction\<close> \<open>vertical\<close> is the top-bottom flip, and only a \<open>direction\<close> that is
  present and is neither of the two raises \<open>ValueError\<close>.
\<close>

theorem flip_default_horizontal:
  assumes "dict_get op ''type'' PNone = PStr ''flip''"
  shows "(op ''direction'' = None \<or> op ''direction'' = Some (PStr ''horizontal'')
            \<longrightarrow> apply_operation c im op = Inr (mirror im))
       \<and> width (mirror im) = width im \<and> height (mirror im) = height im
       \<and> (\<forall>x y. 0 \<le> x \<and> x < width im \<and> 0 \<le> y \<and> y < height im \<longrightarrow>
             carries im (mirror im) (x, y) (width im - 1 - x, y))
       \<and> (op ''direction'' = Some (PStr ''vertical'') \<longrightarrow> apply_operation c im op = Inr (flip im))
       \<and> (\<forall>d. op ''direction'' = Some d \<and> d \<noteq> PStr ''horizontal'' \<and> d \<noteq> PStr ''vertical''
            \<longrightarrow> apply_operation c im op = Inl (ValueError (''Unknown flip direction: '' @ py_str d)))"
  using assms by (auto simp: apply_operation_def Let_def dict_get_def mirror_def carries_def)

theorem flip_default_horizontal_witness:
  "apply_operation reference_codec (sample_image 4 2) flip_op = Inr (mirror (sample_image 4 2))
   \<and> carries (sample_image 4 2) (mirror (sample_image 4 2)) (0, 1) (3, 1)
   \<and> apply_operation reference_codec (sample_image 4 2) (flip_dir_op (PStr ''diagonal''))
       = Inl (ValueError ''Unknown flip direction: diagonal'')"
proof -
  note f1 = flip_default_horizontal[where op = flip_op and c = reference_codec
      and im = "sample_image 4 2"]
  note f2 = flip_default_horizontal[where op = "flip_dir_op (PStr ''diagonal'')"
      and c = reference_codec and im = "sample_image 4 2"]
  have a: "apply_operation reference_codec (sample_image 4 2) flip_op
      = Inr (mirror (sample_image 4 2))"
    using f1 by (simp add: flip_op_def dict_get_def)
  have "\<forall>x y. 0 \<le> x \<and> x < width (sample_image 4 2) \<and> 0 \<le> y \<and> y < height (sample_image 4 2)
          \<longrightarrow> carries (sample_image 4 2) (mirror (sample_image 4 2)) (x, y)
                (width (sample_image 4 2) - 1 - x, y)"
    using f1 by (simp add: flip_op_def dict_get_def)
  then have "carries (sample_image 4 2) (mirror (sample_image 4 2)) (0, 1)
                (width (sample_image 4 2) - 1 - 0, 1)"
    by (rule allE[where x = 0], elim allE[where x = 1]) (simp add: sample_image_def)
  then have b: "carries (sample_image 4 2) (mirror (sample_image 4 2)) (0, 1) (3, 1)"
    by (simp add: sample_image_def)
  have c: "apply_operation reference_codec (sample_image 4 2) (flip_dir_op (PStr ''diagonal''))
       = Inl (ValueError ''Unknown flip direction: diagonal'')"
    using f2 by (simp add: flip_dir_op_def dict_get_def)
  from a b c show ?thesis by blast
qed

text \<open>
  C4, at a request the edit endpoint accepts: the gallery is \<open>/mnt/g\<close>, the source is
  \<open>/mnt/g/photo.jpg\<close>, the operation list is empty, \<open>output_prefix\<close> is \<open>../\<close> and
  \<open>output_suffix\<close> is \<open>_edited\<close>. The call succeeds and the new file is
  \<open>/mnt/photo_edited.jpg\<close>: not in the parent directory of the source, and not under the
  gallery.
\<close>

theorem output_escapes_parent_directory:
  "get_safe_gallery_path (os_resolve Map.empty) [''mnt''] ''photo.jpg'' ''g''
     = Inr ([''mnt'', ''g'', ''photo.jpg''], [''mnt'', ''g''])
   \<and> apply_edits reference_codec True demo_fs [''mnt'', ''g'', ''photo.jpg''] [] ''../'' ''_edited''
     = Some (Inr [''mnt'', ''g'', ''..'', ''photo_edited.jpg''],
             demo_fs([''mnt'', ''photo_edited.jpg''] \<mapsto> File [CHR 0x28, CHR 0x1E]))
   \<and> parent [''mnt'', ''photo_edited.jpg''] \<noteq> parent [''mnt'', ''g'', ''photo.jpg'']
   \<and> \<not> prefix [''mnt'', ''g''] [''mnt'', ''photo_edited.jpg'']"
proof -
  have a: "get_safe_gallery_path (os_resolve Map.empty) [''mnt''] ''photo.jpg'' ''g''
     = Inr ([''mnt'', ''g'', ''photo.jpg''], [''mnt'', ''g''])"
    by (simp add: gallery_eq sandbox_steps_def parts_def os_resolve_def)
  have b: "apply_edits reference_codec True demo_fs [''mnt'', ''g'', ''photo.jpg''] [] ''../'' ''_edited''
     = Some (Inr [''mnt'', ''g'', ''..'', ''photo_edited.jpg''],
             demo_fs([''mnt'', ''photo_edited.jpg''] \<mapsto> File [CHR 0x28, CHR 0x1E]))"
    by (simp add: eval_defs while_exists.simps demo_fs_def)
  show ?thesis using a b by (simp add: parent_def)
qed

end
